theory Spec2Isabelle
  imports Main "HOL-Library.Multiset"
begin

section \<open>Data model\<close>

text \<open>
  The program is one Streamlit script, \<^verbatim>\<open>src/app.py\<close>. Python's \<^verbatim>\<open>str\<close> is modelled as
  \<^typ>\<open>string\<close> (one \<^typ>\<open>char\<close> per character) and \<^verbatim>\<open>bytes\<close> as a list of \<^typ>\<open>char\<close>,
  which in HOL is an 8-bit value.
\<close>

type_synonym bytes = "char list"

text \<open>
  The exceptions that can reach the script: the decode error of \<^verbatim>\<open>bytes.decode\<close>, the two
  parser errors of \<^verbatim>\<open>pd.read_csv\<close>, the \<^verbatim>\<open>ValueError\<close> of \<^verbatim>\<open>np.array_split\<close>, each with
  its message, which \<^verbatim>\<open>f"{e}"\<close> prints; and the \<^verbatim>\<open>DuplicateWidgetID\<close> that Streamlit raises
  for a second widget with a key already used in the run, with that key.
\<close>

datatype exn =
    UnicodeDecodeError string
  | EmptyDataError string
  | ParserError string
  | ValueError string
  | DuplicateWidgetID string

text \<open>
  A \<^verbatim>\<open>pandas.DataFrame\<close>: the column labels and the rows in index order. A row is a
  record of the lead file (a mapping from column label to cell); the script never looks
  inside one, so the row type is a parameter.
\<close>

record 'r DataFrame =
  columns :: "string list"
  rows :: "'r list"

text \<open>\<^verbatim>\<open>pd.DataFrame()\<close>: no columns, no rows.\<close>

definition pd_DataFrame :: "'r DataFrame" where
  "pd_DataFrame = \<lparr>columns = [], rows = []\<rparr>"

text \<open>\<^verbatim>\<open>df.empty\<close>: true when either axis has length 0.\<close>

definition empty_df :: "'r DataFrame \<Rightarrow> bool" where
  "empty_df df = (columns df = [] \<or> rows df = [])"

text \<open>\<^verbatim>\<open>len(df)\<close>: the number of rows.\<close>

definition len_df :: "'r DataFrame \<Rightarrow> nat" where
  "len_df df = length (rows df)"

text \<open>An uploaded file of \<^verbatim>\<open>st.file_uploader\<close>: its \<^verbatim>\<open>name\<close> and what \<^verbatim>\<open>getvalue()\<close> returns.\<close>

record UploadedFile =
  name :: string
  getvalue :: bytes

text \<open>
  The library functions the script calls on file contents and on shares are parameters
  of the model: \<^verbatim>\<open>bytes.decode('utf-8')\<close>, \<^verbatim>\<open>pd.read_csv\<close> and
  \<^verbatim>\<open>DataFrame.to_csv(index=False).encode('utf-8')\<close>.
\<close>

record 'r lib =
  decode_utf8 :: "bytes \<Rightarrow> exn + string"
  read_csv :: "string \<Rightarrow> exn + 'r DataFrame"
  to_csv :: "'r DataFrame \<Rightarrow> bytes"

section \<open>The split of numpy\<close>

text \<open>
  Modelled from the spec: \<^verbatim>\<open>np.array_split\<close> is numpy's code and is not part of the
  repository's sources. The spec gives its rule: with \<open>base = T div N\<close> and
  \<open>remainder = T mod N\<close>, the first \<open>remainder\<close> slices receive \<open>base + 1\<close> records and the
  remaining \<open>N - remainder\<close> slices receive \<open>base\<close> records; the slices are contiguous, in
  order, one per section. The definitions below compute the slices the way numpy does:
  the section sizes with a leading 0, their running sums as division points, and the
  slice \<^verbatim>\<open>ary[st:end]\<close> between two neighbouring division points. A section count that is
  not positive raises \<^verbatim>\<open>ValueError\<close>.
\<close>

definition section_sizes :: "nat \<Rightarrow> nat \<Rightarrow> nat list" where
  "section_sizes Ntotal Nsections =
     (let Neach_section = Ntotal div Nsections;
          extras = Ntotal mod Nsections
      in [0] @ replicate extras (Neach_section + 1)
             @ replicate (Nsections - extras) Neach_section)"

fun cumsum_from :: "nat \<Rightarrow> nat list \<Rightarrow> nat list" where
  "cumsum_from acc [] = []"
| "cumsum_from acc (x # xs) = (acc + x) # cumsum_from (acc + x) xs"

definition cumsum :: "nat list \<Rightarrow> nat list" where
  "cumsum xs = cumsum_from 0 xs"

text \<open>\<^verbatim>\<open>ary[st:end]\<close> for \<open>0 \<le> st\<close> and \<open>0 \<le> end\<close>: an end beyond the length is clipped.\<close>

definition slice :: "'a list \<Rightarrow> nat \<Rightarrow> nat \<Rightarrow> 'a list" where
  "slice ary st en = take (en - st) (drop st ary)"

definition array_split :: "'a list \<Rightarrow> nat \<Rightarrow> exn + 'a list list" where
  "array_split ary Nsections =
     (if Nsections \<le> 0 then Inl (ValueError ''number sections must be larger than 0.'')
      else
        let div_points = cumsum (section_sizes (length ary) Nsections)
        in Inr (map (\<lambda>i. slice ary (div_points ! i) (div_points ! (i + 1))) [0..<Nsections]))"

text \<open>Splitting a DataFrame splits its rows; every part keeps the columns.\<close>

definition array_split_df :: "'r DataFrame \<Rightarrow> nat \<Rightarrow> exn + 'r DataFrame list" where
  "array_split_df df Nsections =
     (case array_split (rows df) Nsections of
        Inl e \<Rightarrow> Inl e
      | Inr parts \<Rightarrow> Inr (map (\<lambda>rs. df\<lparr>rows := rs\<rparr>) parts))"

section \<open>Splitting logic (lines 122 to 128)\<close>

text \<open>
  \<^verbatim>\<open>df.sample(frac=1)\<close> returns the rows in a random order. The order drawn by the random
  number generator is the argument \<open>perm\<close>: position \<open>k\<close> of the result holds row \<open>perm ! k\<close>.
  The generator draws a permutation of the row positions, \<open>mset perm = mset [0..<T]\<close>.
  \<^verbatim>\<open>reset_index(drop=True)\<close> renumbers the index and leaves columns and rows as they are.
\<close>

definition sample_frac1 :: "nat list \<Rightarrow> 'r DataFrame \<Rightarrow> 'r DataFrame" where
  "sample_frac1 perm df = df\<lparr>rows := map (\<lambda>k. rows df ! k) perm\<rparr>"

definition reset_index :: "'r DataFrame \<Rightarrow> 'r DataFrame" where
  "reset_index df = df"

definition split_leads :: "nat list \<Rightarrow> 'r DataFrame \<Rightarrow> nat \<Rightarrow> exn + 'r DataFrame list" where
  "split_leads perm combined_leads_df num_people =
     (let shuffled_df = reset_index (sample_frac1 perm combined_leads_df)
      in array_split_df shuffled_df num_people)"

text \<open>The sizes of the shares of a split, and how many shares have a given size.\<close>

definition share_sizes :: "'r DataFrame list \<Rightarrow> nat list" where
  "share_sizes split_dfs = map len_df split_dfs"

definition count_size :: "nat \<Rightarrow> 'r DataFrame list \<Rightarrow> nat" where
  "count_size k split_dfs = length (filter (\<lambda>df. len_df df = k) split_dfs)"

text \<open>
  The share sizes as the spec's fair-split rule lists them, left to right: \<open>T mod N\<close>
  shares of \<open>T div N + 1\<close> records, then \<open>N - T mod N\<close> shares of \<open>T div N\<close> records.
\<close>

definition fair_split_sizes :: "nat \<Rightarrow> nat \<Rightarrow> nat list" where
  "fair_split_sizes T N = replicate (T mod N) (T div N + 1) @ replicate (N - T mod N) (T div N)"

text \<open>The ceiling of \<open>T / N\<close>, as the spec writes the larger share size.\<close>

definition ceil_div :: "nat \<Rightarrow> nat \<Rightarrow> nat" where
  "ceil_div T N = (T + N - 1) div N"

section \<open>Ingestion and merge (lines 11 to 38)\<close>

text \<open>
  What the script shows on the page, one constructor for each call that writes a message
  or a widget, with the values the message interpolates. The static page furniture
  (title, headers, dividers, caption) carries no data and is left out.
\<close>

record download_button =
  label :: string
  data :: bytes
  file_name :: string
  mime :: string
  key :: string

datatype element =
    Write_names_entered "string list"
  | Error_at_least_2_names
  | Error_max_10_files
  | Success_files_selected nat "string list"
  | Info_processing
  | Warning_file_empty string
  | Error_reading_file string exn
  | Error_no_valid_lead_data
  | Success_combined nat nat
  | Warning_fewer_leads nat nat
  | Write_splitting nat "string list"
  | Subheader_download
  | Download nat download_button
  | Write_no_leads nat string
  | Write_no_split_data nat string
  | Warning_could_not_proceed
  | Error_need_names
  | Error_need_files
  | Error_need_fewer_files

text \<open>
  Modelled from the spec: \<^verbatim>\<open>pd.concat\<close> is pandas' code and is not part of the
  repository's sources. The spec: the per-file record collections are concatenated in the
  order the files were supplied, preserving the row order within each file, and the column
  order follows the first file that contributes a column. The script calls it on a
  non-empty list only (line 32 returns before).
\<close>

definition pd_concat :: "'r DataFrame list \<Rightarrow> 'r DataFrame" where
  "pd_concat dfs =
     \<lparr>columns = rev (remdups (rev (concat (map columns dfs)))),
      rows = concat (map rows dfs)\<rparr>"

text \<open>Lines 21 to 23: the bytes of the file, decoded, then parsed.\<close>

definition read_file :: "'r lib \<Rightarrow> UploadedFile \<Rightarrow> exn + 'r DataFrame" where
  "read_file L uploaded_file =
     (let bytes_data = getvalue uploaded_file
      in case decode_utf8 L bytes_data of
           Inl e \<Rightarrow> Inl e
         | Inr s \<Rightarrow> read_csv L s)"

text \<open>The local variables of the loop of line 18, and the messages shown so far.\<close>

record 'r ingest_state =
  all_dfs :: "'r DataFrame list"
  error_files :: "string list"
  shown :: "element list"

text \<open>The body of the loop, lines 19 to 30: the \<^verbatim>\<open>try\<close> and its \<^verbatim>\<open>except Exception\<close>.\<close>

definition ingest_file :: "'r lib \<Rightarrow> 'r ingest_state \<Rightarrow> UploadedFile \<Rightarrow> 'r ingest_state" where
  "ingest_file L st uploaded_file =
     (case read_file L uploaded_file of
        Inr df \<Rightarrow>
          if \<not> empty_df df then st\<lparr>all_dfs := all_dfs st @ [df]\<rparr>
          else st\<lparr>shown := shown st @ [Warning_file_empty (name uploaded_file)]\<rparr>
      | Inl e \<Rightarrow>
          st\<lparr>error_files := error_files st @ [name uploaded_file],
             shown := shown st @ [Error_reading_file (name uploaded_file) e]\<rparr>)"

fun ingest_loop :: "'r lib \<Rightarrow> 'r ingest_state \<Rightarrow> UploadedFile list \<Rightarrow> 'r ingest_state" where
  "ingest_loop L st [] = st"
| "ingest_loop L st (uploaded_file # rest) = ingest_loop L (ingest_file L st uploaded_file) rest"

definition ingest_init :: "'r ingest_state" where
  "ingest_init = \<lparr>all_dfs = [], error_files = [], shown = []\<rparr>"

text \<open>The function returns the DataFrame; the messages it shows are returned beside it.\<close>

definition process_uploaded_files ::
  "'r lib \<Rightarrow> UploadedFile list \<Rightarrow> 'r DataFrame \<times> element list" where
  "process_uploaded_files L uploaded_files =
     (if uploaded_files = [] then (pd_DataFrame, [])
      else
        let st = ingest_loop L ingest_init uploaded_files
        in if all_dfs st = [] then (pd_DataFrame, shown st @ [Error_no_valid_lead_data])
           else (pd_concat (all_dfs st), shown st))"

text \<open>
  The reading of a file, as the spec's diagnostics name it: included when it parses to a
  DataFrame that is not empty.
\<close>

definition included :: "'r lib \<Rightarrow> UploadedFile \<Rightarrow> bool" where
  "included L uploaded_file =
     (case read_file L uploaded_file of Inl e \<Rightarrow> False | Inr df \<Rightarrow> \<not> empty_df df)"

definition fails :: "'r lib \<Rightarrow> UploadedFile \<Rightarrow> bool" where
  "fails L uploaded_file =
     (case read_file L uploaded_file of Inl e \<Rightarrow> True | Inr df \<Rightarrow> False)"

definition parsed_df :: "'r lib \<Rightarrow> UploadedFile \<Rightarrow> 'r DataFrame" where
  "parsed_df L uploaded_file =
     (case read_file L uploaded_file of Inl e \<Rightarrow> pd_DataFrame | Inr df \<Rightarrow> df)"

section \<open>Serialisation (lines 40 to 49)\<close>

text \<open>
  \<^verbatim>\<open>st.cache_data\<close> keeps the results of \<^verbatim>\<open>convert_df\<close> across calls and reruns, keyed by
  the argument: a stored result is returned without calling the function again.
\<close>

type_synonym 'r cache = "'r DataFrame \<Rightarrow> bytes option"

definition convert_df :: "'r lib \<Rightarrow> 'r cache \<Rightarrow> 'r DataFrame \<Rightarrow> bytes \<times> 'r cache" where
  "convert_df L cache df_to_convert =
     (case cache df_to_convert of
        Some stored \<Rightarrow> (stored, cache)
      | None \<Rightarrow> (to_csv L df_to_convert, cache(df_to_convert \<mapsto> to_csv L df_to_convert)))"

definition generate_csv_download ::
  "'r lib \<Rightarrow> 'r cache \<Rightarrow> 'r DataFrame \<Rightarrow> string \<Rightarrow> (bytes \<times> string) \<times> 'r cache" where
  "generate_csv_download L cache df filename =
     (let (csv_data, cache') = convert_df L cache df
      in ((csv_data, filename), cache'))"

section \<open>Strings, names and dates\<close>

text \<open>\<^verbatim>\<open>str.isspace\<close> on the characters below 256.\<close>

definition isspace :: "char \<Rightarrow> bool" where
  "isspace c =
     (let n = (of_char c :: nat)
      in (9 \<le> n \<and> n \<le> 13) \<or> (28 \<le> n \<and> n \<le> 32) \<or> n = 133 \<or> n = 160)"

definition strip :: "string \<Rightarrow> string" where
  "strip s = rev (dropWhile isspace (rev (dropWhile isspace s)))"

text \<open>\<^verbatim>\<open>s.split('\n')\<close>: the pieces between line feeds, at least one piece.\<close>

fun split_nl :: "string \<Rightarrow> string list" where
  "split_nl [] = [[]]"
| "split_nl (c # cs) =
     (if c = CHR 0x0A then [] # split_nl cs
      else (case split_nl cs of
              [] \<Rightarrow> [[c]]
            | piece # pieces \<Rightarrow> (c # piece) # pieces))"

text \<open>\<^verbatim>\<open>s.replace(old, new)\<close> for one-character \<open>old\<close> and \<open>new\<close>.\<close>

definition replace :: "string \<Rightarrow> char \<Rightarrow> char \<Rightarrow> string" where
  "replace s old new = map (\<lambda>c. if c = old then new else c) s"

text \<open>Decimal digits of a number, and padding with zeros on the left.\<close>

fun str_nat :: "nat \<Rightarrow> string" where
  "str_nat n =
     (if n < 10 then [''0123456789'' ! n]
      else str_nat (n div 10) @ [''0123456789'' ! (n mod 10)])"

declare str_nat.simps [simp del]

definition zfill :: "nat \<Rightarrow> string \<Rightarrow> string" where
  "zfill w s = replicate (w - length s) CHR ''0'' @ s"

record date =
  year :: nat
  month :: nat
  day :: nat

text \<open>\<^verbatim>\<open>d.strftime("%Y-%m-%d")\<close>: four digits of year, two of month, two of day.\<close>

definition strftime_Ymd :: "date \<Rightarrow> string" where
  "strftime_Ymd d =
     zfill 4 (str_nat (year d)) @ ''-'' @ zfill 2 (str_nat (month d)) @ ''-''
       @ zfill 2 (str_nat (day d))"

section \<open>The script\<close>

text \<open>Line 65: the names, one per line, stripped, blank lines dropped.\<close>

definition parse_names :: "string \<Rightarrow> string list" where
  "parse_names names_input =
     map strip (filter (\<lambda>person. strip person \<noteq> []) (split_nl names_input))"

text \<open>Lines 65 to 72: the names that go on, and what is shown.\<close>

definition section1 :: "string \<Rightarrow> string list \<times> element list" where
  "section1 names_input =
     (let names = parse_names names_input
      in if names \<noteq> [] then
           (if length names < 2 then ([], [Write_names_entered names, Error_at_least_2_names])
            else (names, [Write_names_entered names]))
         else (names, []))"

text \<open>Lines 88 to 98: \<^verbatim>\<open>valid_upload_count\<close>, and what is shown.\<close>

definition section2 :: "UploadedFile list \<Rightarrow> bool \<times> element list" where
  "section2 uploaded_files =
     (if uploaded_files \<noteq> [] then
        (if length uploaded_files > 10 then (False, [Error_max_10_files])
         else (True, [Success_files_selected (length uploaded_files) (map name uploaded_files)]))
      else (False, []))"

text \<open>
  What a run of the script leaves: the elements shown, in order; the exception that ended
  the run, if one did (the elements before it stay on the page); and the cache.
\<close>

record 'r run =
  page :: "element list"
  raised :: "exn option"
  final_cache :: "'r cache"

text \<open>
  Lines 141 to 153: the arguments of \<^verbatim>\<open>st.download_button\<close> for the share \<open>person_df\<close> of
  the recipient \<open>person\<close>, and the cache after the share is serialised.
\<close>

definition button_for ::
  "'r lib \<Rightarrow> string \<Rightarrow> 'r cache \<Rightarrow> 'r DataFrame \<Rightarrow> string \<Rightarrow> download_button \<times> 'r cache" where
  "button_for L today_str cache person_df person =
     (let filename = ''leads_'' @ today_str @ ''_''
                       @ replace person CHR '' '' CHR ''_'' @ ''.csv'';
          ((csv_data, download_filename), cache') =
             generate_csv_download L cache person_df filename
      in (\<lparr>label = ''Download for '' @ person @ '' (''
                       @ str_nat (len_df person_df) @ '' leads)'',
           data = csv_data,
           file_name = download_filename,
           mime = ''text/csv'',
           key = ''download_'' @ person\<rparr>,
          cache'))"

text \<open>
  \<^verbatim>\<open>st.download_button\<close> with a \<^verbatim>\<open>key\<close>: \<open>keys\<close> are the widget keys used so far in the run.
  A key can be used once; a second widget with the same key raises and ends the run.
  The other widgets of the script have no key of their own.
\<close>

definition st_download_button :: "string list \<Rightarrow> download_button \<Rightarrow> exn + string list" where
  "st_download_button keys button =
     (if key button \<in> set keys then Inl (DuplicateWidgetID (key button))
      else Inr (key button # keys))"

text \<open>
  The body of the loop of line 137 for the recipient at position \<open>i\<close>: the element shown
  in column \<open>i mod ncols\<close> or the exception raised, the cache and the widget keys after it.
\<close>

definition render_recipient ::
  "'r lib \<Rightarrow> string \<Rightarrow> nat \<Rightarrow> 'r DataFrame list \<Rightarrow> 'r cache \<Rightarrow> string list \<Rightarrow> nat \<Rightarrow> string
    \<Rightarrow> (exn + element) \<times> 'r cache \<times> string list" where
  "render_recipient L today_str ncols split_dfs cache keys i person =
     (if i < length split_dfs then
        (let person_df = split_dfs ! i
         in if \<not> empty_df person_df then
              (let (button, cache') = button_for L today_str cache person_df person;
                   col_index = i mod ncols
               in case st_download_button keys button of
                    Inl e \<Rightarrow> (Inl e, cache', keys)
                  | Inr keys' \<Rightarrow> (Inr (Download col_index button), cache', keys'))
            else
              (let col_index = i mod ncols
               in (Inr (Write_no_leads col_index person), cache, keys)))
      else
        (let col_index = i mod ncols
         in (Inr (Write_no_split_data col_index person), cache, keys)))"

fun render_loop ::
  "'r lib \<Rightarrow> string \<Rightarrow> nat \<Rightarrow> 'r DataFrame list \<Rightarrow> 'r cache \<Rightarrow> string list \<Rightarrow> nat
    \<Rightarrow> string list \<Rightarrow> 'r run" where
  "render_loop L today_str ncols split_dfs cache keys i [] =
     \<lparr>page = [], raised = None, final_cache = cache\<rparr>"
| "render_loop L today_str ncols split_dfs cache keys i (person # rest) =
     (case render_recipient L today_str ncols split_dfs cache keys i person of
        (Inl e, cache', keys') \<Rightarrow> \<lparr>page = [], raised = Some e, final_cache = cache'\<rparr>
      | (Inr el, cache', keys') \<Rightarrow>
          (let r = render_loop L today_str ncols split_dfs cache' keys' (Suc i) rest
           in r\<lparr>page := el # page r\<rparr>))"

text \<open>
  Lines 106 to 180. The arguments beside the library are what one run of the script does
  not compute from its inputs: the order the random number generator draws (\<open>perm\<close>), the
  date of the day (\<open>today\<close>) and the cache as the run finds it. No widget key is in use
  when the loop starts.
\<close>

definition section3 ::
  "'r lib \<Rightarrow> nat list \<Rightarrow> date \<Rightarrow> 'r cache \<Rightarrow> string list \<Rightarrow> UploadedFile list \<Rightarrow> bool \<Rightarrow> bool
    \<Rightarrow> 'r run" where
  "section3 L perm today cache names uploaded_files valid_upload_count clicked =
     (if names \<noteq> [] \<and> uploaded_files \<noteq> [] \<and> valid_upload_count then
        (let (combined_leads_df, diagnostics) = process_uploaded_files L uploaded_files
         in if \<not> empty_df combined_leads_df then
              (let total_leads = len_df combined_leads_df;
                   num_people = length names;
                   before = [Info_processing] @ diagnostics
                     @ [Success_combined total_leads (length uploaded_files)]
                     @ (if total_leads < num_people
                        then [Warning_fewer_leads total_leads num_people] else [])
                     @ [Write_splitting num_people names]
               in case split_leads perm combined_leads_df num_people of
                    Inl e \<Rightarrow> \<lparr>page = before, raised = Some e, final_cache = cache\<rparr>
                  | Inr split_dfs \<Rightarrow>
                      (let ncols = min num_people 4;
                           today_str = strftime_Ymd today;
                           r = render_loop L today_str ncols split_dfs cache [] 0 names
                       in r\<lparr>page := before @ [Subheader_download] @ page r\<rparr>))
            else \<lparr>page = [Info_processing] @ diagnostics @ [Warning_could_not_proceed],
                  raised = None, final_cache = cache\<rparr>)
      else if clicked then
        \<lparr>page = (if names = [] then [Error_need_names] else [])
                 @ (if uploaded_files = [] then [Error_need_files]
                    else if \<not> valid_upload_count then [Error_need_fewer_files] else []),
         raised = None, final_cache = cache\<rparr>
      else \<lparr>page = [], raised = None, final_cache = cache\<rparr>)"

text \<open>One run of the script: the inputs of the page, and everything shown.\<close>

record page_inputs =
  names_input :: string
  uploaded_files :: "UploadedFile list"
  process_clicked :: bool

definition app :: "'r lib \<Rightarrow> nat list \<Rightarrow> date \<Rightarrow> 'r cache \<Rightarrow> page_inputs \<Rightarrow> 'r run" where
  "app L perm today cache inp =
     (let (names, shown1) = section1 (names_input inp);
          (valid_upload_count, shown2) = section2 (uploaded_files inp);
          r = section3 L perm today cache names (uploaded_files inp) valid_upload_count
                (process_clicked inp)
      in r\<lparr>page := shown1 @ shown2 @ page r\<rparr>)"

section \<open>Reading the results\<close>

text \<open>
  What the loop of line 18 shows for one file: nothing for an included file, the warning
  of line 27 for an empty one, the error of line 29 with the exception for a failing one.
\<close>

definition diagnostics_of :: "'r lib \<Rightarrow> UploadedFile \<Rightarrow> element list" where
  "diagnostics_of L uploaded_file =
     (case read_file L uploaded_file of
        Inl e \<Rightarrow> [Error_reading_file (name uploaded_file) e]
      | Inr df \<Rightarrow> if \<not> empty_df df then [] else [Warning_file_empty (name uploaded_file)])"

text \<open>A file that fails to parse or yields zero data rows.\<close>

definition fails_or_no_rows :: "'r lib \<Rightarrow> UploadedFile \<Rightarrow> bool" where
  "fails_or_no_rows L uploaded_file =
     (case read_file L uploaded_file of Inl e \<Rightarrow> True | Inr df \<Rightarrow> rows df = [])"

text \<open>The download buttons on a page.\<close>

fun download_of :: "element \<Rightarrow> download_button option" where
  "download_of (Download col_index button) = Some button"
| "download_of el = None"

definition downloads :: "element list \<Rightarrow> download_button list" where
  "downloads els = List.map_filter download_of els"

text \<open>The file names and the widget keys of the download buttons on a page, in order.\<close>

definition download_names :: "element list \<Rightarrow> string list" where
  "download_names els = map file_name (downloads els)"

definition download_keys :: "element list \<Rightarrow> string list" where
  "download_keys els = map key (downloads els)"

text \<open>
  The recipient at position \<open>i\<close> gets a download button when there is a share at \<open>i\<close> and
  it is not empty; the names of the recipients that get one, from position \<open>i\<close> on.
\<close>

definition gets_button :: "'r DataFrame list \<Rightarrow> nat \<Rightarrow> bool" where
  "gets_button split_dfs i = (i < length split_dfs \<and> \<not> empty_df (split_dfs ! i))"

fun button_names :: "'r DataFrame list \<Rightarrow> nat \<Rightarrow> string list \<Rightarrow> string list" where
  "button_names split_dfs i [] = []"
| "button_names split_dfs i (person # rest) =
     (if gets_button split_dfs i then person # button_names split_dfs (Suc i) rest
      else button_names split_dfs (Suc i) rest)"

fun is_no_split_data :: "element \<Rightarrow> bool" where
  "is_no_split_data (Write_no_split_data col_index person) = True"
| "is_no_split_data el = False"

text \<open>
  The sanitised name as the spec words it: every whitespace character replaced by an
  underscore.
\<close>

definition sanitize_whitespace :: "string \<Rightarrow> string" where
  "sanitize_whitespace s = map (\<lambda>c. if isspace c then CHR ''_'' else c) s"

section \<open>A library instance for examples\<close>

text \<open>
  One behaviour the library parameters can have, to run the model on concrete files:
  files of a single column, one value per line. A byte \<open>0xFF\<close> never occurs in UTF-8; the
  first non-blank line is the header and the other non-blank lines are the rows; writing
  puts the header and the rows back on lines of their own. The theorems about all inputs
  are proved for every library; this instance only serves their examples.
\<close>

definition demo_decode :: "bytes \<Rightarrow> exn + string" where
  "demo_decode bs =
     (if CHR 0xFF \<in> set bs then Inl (UnicodeDecodeError ''invalid start byte'') else Inr bs)"

definition demo_read_csv :: "string \<Rightarrow> exn + string DataFrame" where
  "demo_read_csv s =
     (case filter (\<lambda>line. line \<noteq> []) (split_nl s) of
        [] \<Rightarrow> Inl (EmptyDataError ''No columns to parse from file'')
      | header # lines \<Rightarrow> Inr \<lparr>columns = [header], rows = lines\<rparr>)"

definition demo_to_csv :: "string DataFrame \<Rightarrow> bytes" where
  "demo_to_csv df = concat (map (\<lambda>line. line @ [CHR 0x0A]) (columns df @ rows df))"

definition demo_lib :: "string lib" where
  "demo_lib = \<lparr>decode_utf8 = demo_decode, read_csv = demo_read_csv, to_csv = demo_to_csv\<rparr>"

text \<open>
  The files of the spec's merge-order example: \<open>A\<close> with two rows, \<open>B\<close> with three, \<open>C\<close>
  whose bytes do not decode; and \<open>D\<close>, a header with no rows.
\<close>

definition file_A :: UploadedFile where
  "file_A = \<lparr>name = ''A.csv'',
              getvalue = ''email'' @ [CHR 0x0A] @ ''a1'' @ [CHR 0x0A] @ ''a2'' @ [CHR 0x0A]\<rparr>"

definition file_B :: UploadedFile where
  "file_B = \<lparr>name = ''B.csv'',
              getvalue = ''email'' @ [CHR 0x0A] @ ''b1'' @ [CHR 0x0A] @ ''b2'' @ [CHR 0x0A] @ ''b3''\<rparr>"

definition file_C :: UploadedFile where
  "file_C = \<lparr>name = ''C.csv'', getvalue = [CHR 0xFF]\<rparr>"

definition file_D :: UploadedFile where
  "file_D = \<lparr>name = ''D.csv'', getvalue = ''email'' @ [CHR 0x0A]\<rparr>"

section \<open>Properties of the split\<close>

lemma length_cumsum_from: "length (cumsum_from a ss) = length ss"
  by (induction ss arbitrary: a) auto

lemma nth_cumsum_from:
  "i < length ss \<Longrightarrow> cumsum_from a ss ! i = a + sum_list (take (Suc i) ss)"
proof (induction ss arbitrary: a i)
  case Nil
  then show ?case by simp
next
  case (Cons s ss)
  then show ?case by (cases i) (auto simp: add.assoc)
qed

lemma cumsum_zero_nth:
  "i \<le> length ss \<Longrightarrow> cumsum (0 # ss) ! i = sum_list (take i ss)"
  by (cases i) (simp_all add: cumsum_def nth_cumsum_from)

lemma sum_list_take_le: "sum_list (take k ss) \<le> sum_list (ss :: nat list)"
proof -
  have "sum_list ss = sum_list (take k ss) + sum_list (drop k ss)"
    by (metis append_take_drop_id sum_list_append)
  then show ?thesis by simp
qed

lemma sum_list_take_Suc:
  "i < length ss \<Longrightarrow> sum_list (take (Suc i) ss) = sum_list (take i ss) + (ss ! i :: nat)"
  by (simp add: take_Suc_conv_app_nth)

lemma concat_chunks:
  "concat (map (\<lambda>i. take (ss ! i) (drop (sum_list (take i ss)) xs)) [0..<length ss])
     = take (sum_list ss) xs"
proof (induction ss rule: rev_induct)
  case Nil
  then show ?case by simp
next
  case (snoc s ss)
  let ?F = "\<lambda>ss i. take (ss ! i) (drop (sum_list (take i ss)) xs)"
  have eq: "map (?F (ss @ [s])) [0..<length ss] = map (?F ss) [0..<length ss]"
  proof (rule map_cong [OF refl])
    fix i assume "i \<in> set [0..<length ss]"
    then have "i < length ss" by simp
    then show "?F (ss @ [s]) i = ?F ss i" by (simp add: nth_append)
  qed
  have "concat (map (?F (ss @ [s])) [0..<length (ss @ [s])])
      = concat (map (?F (ss @ [s])) [0..<length ss]) @ ?F (ss @ [s]) (length ss)"
    by simp
  also have "\<dots> = take (sum_list ss) xs @ take s (drop (sum_list ss) xs)"
    unfolding eq snoc.IH by simp
  also have "\<dots> = take (sum_list (ss @ [s])) xs"
    by (simp add: take_add)
  finally show ?case .
qed

lemma section_sizes_eq: "section_sizes T N = 0 # fair_split_sizes T N"
  by (simp add: section_sizes_def fair_split_sizes_def Let_def)

lemma length_fair_split_sizes: "0 < N \<Longrightarrow> length (fair_split_sizes T N) = N"
  by (simp add: fair_split_sizes_def)

lemma sum_list_fair_split_sizes: "0 < N \<Longrightarrow> sum_list (fair_split_sizes T N) = T"
proof -
  assume "0 < N"
  then have le: "T mod N \<le> N" by simp
  have "sum_list (fair_split_sizes T N) = T mod N * (T div N + 1) + (N - T mod N) * (T div N)"
    by (simp add: fair_split_sizes_def sum_list_replicate)
  also have "\<dots> = T mod N + (T mod N + (N - T mod N)) * (T div N)"
    by (simp add: algebra_simps)
  also have "\<dots> = T mod N + N * (T div N)"
    using le by simp
  also have "\<dots> = T" by simp
  finally show ?thesis .
qed

lemma nth_fair_split_sizes:
  "i < N \<Longrightarrow> fair_split_sizes T N ! i = (if i < T mod N then T div N + 1 else T div N)"
  by (simp add: fair_split_sizes_def nth_append)

lemma array_split_chunks:
  assumes "0 < N"
  shows "array_split xs N =
           Inr (map (\<lambda>i. take (fair_split_sizes (length xs) N ! i)
                           (drop (sum_list (take i (fair_split_sizes (length xs) N))) xs)) [0..<N])"
proof -
  let ?ss = "fair_split_sizes (length xs) N"
  have len: "length ?ss = N" using assms by (rule length_fair_split_sizes)
  have "map (\<lambda>i. slice xs (cumsum (0 # ?ss) ! i) (cumsum (0 # ?ss) ! (i + 1))) [0..<N]
      = map (\<lambda>i. take (?ss ! i) (drop (sum_list (take i ?ss)) xs)) [0..<N]"
  proof (rule map_cong [OF refl])
    fix i assume "i \<in> set [0..<N]"
    then have i: "i < length ?ss" using len by simp
    then show "slice xs (cumsum (0 # ?ss) ! i) (cumsum (0 # ?ss) ! (i + 1))
             = take (?ss ! i) (drop (sum_list (take i ?ss)) xs)"
      by (simp add: slice_def cumsum_zero_nth sum_list_take_Suc)
  qed
  then show ?thesis
    using assms by (simp add: array_split_def section_sizes_eq Let_def)
qed

lemma array_split_length:
  "0 < N \<Longrightarrow> array_split xs N = Inr parts \<Longrightarrow> length parts = N"
  by (auto simp: array_split_chunks)

lemma array_split_concat:
  assumes "0 < N" and "array_split xs N = Inr parts"
  shows "concat parts = xs"
proof -
  let ?ss = "fair_split_sizes (length xs) N"
  have len: "length ?ss = N" using assms(1) by (rule length_fair_split_sizes)
  have "parts = map (\<lambda>i. take (?ss ! i) (drop (sum_list (take i ?ss)) xs)) [0..<length ?ss]"
    using assms by (simp add: array_split_chunks len)
  then have "concat parts = take (sum_list ?ss) xs"
    by (simp only: concat_chunks)
  then show ?thesis
    using assms(1) by (simp add: sum_list_fair_split_sizes)
qed

lemma array_split_sizes:
  assumes "0 < N" and "array_split xs N = Inr parts"
  shows "map length parts = fair_split_sizes (length xs) N"
proof -
  let ?ss = "fair_split_sizes (length xs) N"
  have len: "length ?ss = N" using assms(1) by (rule length_fair_split_sizes)
  have total: "sum_list ?ss = length xs" using assms(1) by (rule sum_list_fair_split_sizes)
  have parts: "parts = map (\<lambda>i. take (?ss ! i) (drop (sum_list (take i ?ss)) xs)) [0..<N]"
    using assms by (simp add: array_split_chunks)
  have "map length parts = map (\<lambda>i. ?ss ! i) [0..<length ?ss]"
    unfolding parts len map_map
  proof (rule map_cong [OF refl])
    fix i assume "i \<in> set [0..<N]"
    then have i: "i < length ?ss" using len by simp
    have "sum_list (take i ?ss) + ?ss ! i \<le> length xs"
      using sum_list_take_le [of "Suc i" ?ss] i by (simp add: sum_list_take_Suc total)
    then show "(length \<circ> (\<lambda>i. take (?ss ! i) (drop (sum_list (take i ?ss)) xs))) i = ?ss ! i"
      by simp
  qed
  then show ?thesis by (simp add: map_nth)
qed

lemma concat_slice:
  "i < length parts \<Longrightarrow>
     take (length (parts ! i)) (drop (sum_list (map length (take i parts))) (concat parts))
       = parts ! i"
proof (induction parts arbitrary: i)
  case Nil
  then show ?case by simp
next
  case (Cons p parts)
  then show ?case by (cases i) simp_all
qed

lemma set_fair_split_sizes: "set (fair_split_sizes T N) \<subseteq> {T div N, T div N + 1}"
  by (auto simp: fair_split_sizes_def)

lemma count_fair_split_sizes:
  "length (filter (\<lambda>k. k = T div N + 1) (fair_split_sizes T N)) = T mod N"
  by (simp add: fair_split_sizes_def filter_replicate)

lemma split_leads_rows:
  assumes "0 < N"
  shows "\<exists>split_dfs. split_leads perm df N = Inr split_dfs
           \<and> array_split (map (\<lambda>k. rows df ! k) perm) N = Inr (map rows split_dfs)
           \<and> list_all (\<lambda>s. columns s = columns df) split_dfs"
proof -
  obtain parts where parts: "array_split (map (\<lambda>k. rows df ! k) perm) N = Inr parts"
    using assms by (simp add: array_split_chunks)
  have "split_leads perm df N = Inr (map (\<lambda>rs. df\<lparr>rows := rs\<rparr>) parts)"
    by (simp add: split_leads_def reset_index_def sample_frac1_def array_split_df_def parts)
  moreover have "map rows (map (\<lambda>rs. df\<lparr>rows := rs\<rparr>) parts) = parts"
    by (simp add: comp_def)
  moreover have "list_all (\<lambda>s. columns s = columns df) (map (\<lambda>rs. df\<lparr>rows := rs\<rparr>) parts)"
    by (simp add: list_all_iff)
  ultimately show ?thesis using parts by auto
qed

lemma mset_permuted:
  assumes "mset perm = mset [0..<length xs]"
  shows "mset (map (\<lambda>k. xs ! k) perm) = mset xs"
proof -
  have "mset (map (\<lambda>k. xs ! k) perm) = image_mset (\<lambda>k. xs ! k) (mset perm)" by simp
  also have "\<dots> = mset (map (\<lambda>k. xs ! k) [0..<length xs])" using assms by simp
  also have "\<dots> = mset xs" by (simp add: map_nth)
  finally show ?thesis .
qed

lemma ceil_div_rem:
  assumes "0 < N" and "T mod N \<noteq> 0"
  shows "ceil_div T N = T div N + 1"
proof -
  define q r where "q = T div N" and "r = T mod N"
  have T: "T = q * N + r" by (simp add: q_def r_def)
  have r: "0 < r" "r < N" using assms by (simp_all add: r_def)
  have "T + N - 1 = (r - 1) + (q + 1) * N"
    using r unfolding T by simp
  then have "(T + N - 1) div N = (r - 1) div N + (q + 1)"
    using assms(1) by (simp only: div_mult_self1 [of N "r - 1" "q + 1"])
  also have "(r - 1) div N = 0" using r by simp
  finally show ?thesis by (simp add: ceil_div_def q_def)
qed

section \<open>Claims about the split\<close>

text \<open>
  Claim C1, as amended. For a merged RecordSet of \<open>T\<close> records, shuffled by a permutation,
  and \<open>N \<ge> 2\<close> recipients, the split returns exactly \<open>N\<close> shares; their sizes, left to
  right, are \<open>T mod N\<close> times \<open>T div N + 1\<close> and then \<open>N - T mod N\<close> times \<open>T div N\<close>; the
  largest and the smallest share differ by at most one record; and exactly \<open>T mod N\<close>
  shares have size \<open>T div N + 1\<close>, which is the ceiling of \<open>T / N\<close> whenever \<open>N\<close> does not
  divide \<open>T\<close>.
\<close>

theorem C1_fair_split_sizes:
  assumes "mset perm = mset [0..<len_df df]" and "2 \<le> N"
  shows "\<exists>split_dfs. split_leads perm df N = Inr split_dfs
           \<and> length split_dfs = N
           \<and> share_sizes split_dfs = fair_split_sizes (len_df df) N
           \<and> (\<forall>i<N. len_df (split_dfs ! i)
                       = (if i < len_df df mod N then len_df df div N + 1 else len_df df div N))
           \<and> Max (set (share_sizes split_dfs)) - Min (set (share_sizes split_dfs)) \<le> 1
           \<and> count_size (len_df df div N + 1) split_dfs = len_df df mod N
           \<and> (len_df df mod N \<noteq> 0 \<longrightarrow> ceil_div (len_df df) N = len_df df div N + 1)"
proof -
  let ?T = "len_df df"
  have N: "0 < N" using assms(2) by simp
  have "size (mset perm) = size (mset [0..<?T])" using assms(1) by simp
  then have lperm: "length perm = ?T" by simp
  obtain split_dfs where sl: "split_leads perm df N = Inr split_dfs"
    and as: "array_split (map (\<lambda>k. rows df ! k) perm) N = Inr (map rows split_dfs)"
    using split_leads_rows [OF N, of perm df] by blast
  have len: "length split_dfs = N"
    using array_split_length [OF N as] by simp
  have "map length (map rows split_dfs) = fair_split_sizes (length (map (\<lambda>k. rows df ! k) perm)) N"
    using N as by (rule array_split_sizes)
  then have sizes: "share_sizes split_dfs = fair_split_sizes ?T N"
    by (simp add: share_sizes_def len_df_def [abs_def] comp_def lperm [unfolded len_df_def])
  have nth: "\<forall>i<N. len_df (split_dfs ! i) = (if i < ?T mod N then ?T div N + 1 else ?T div N)"
  proof (intro allI impI)
    fix i assume i: "i < N"
    have "len_df (split_dfs ! i) = share_sizes split_dfs ! i"
      using i len by (simp add: share_sizes_def)
    then show "len_df (split_dfs ! i) = (if i < ?T mod N then ?T div N + 1 else ?T div N)"
      using i by (simp only: sizes nth_fair_split_sizes)
  qed
  have ne: "set (share_sizes split_dfs) \<noteq> {}"
    using len N by (auto simp: share_sizes_def)
  have sub: "set (share_sizes split_dfs) \<subseteq> {?T div N, ?T div N + 1}"
    unfolding sizes by (rule set_fair_split_sizes)
  have "Max (set (share_sizes split_dfs)) \<le> ?T div N + 1"
    using sub ne by (subst Max_le_iff) auto
  moreover have "?T div N \<le> Min (set (share_sizes split_dfs))"
    using sub ne by (subst Min_ge_iff) auto
  ultimately have spread: "Max (set (share_sizes split_dfs)) - Min (set (share_sizes split_dfs)) \<le> 1"
    by simp
  have "count_size (?T div N + 1) split_dfs
      = length (filter (\<lambda>k. k = ?T div N + 1) (share_sizes split_dfs))"
    by (simp add: count_size_def share_sizes_def filter_map comp_def)
  then have cnt: "count_size (?T div N + 1) split_dfs = ?T mod N"
    by (simp only: sizes count_fair_split_sizes)
  have ceil: "?T mod N \<noteq> 0 \<longrightarrow> ceil_div ?T N = ?T div N + 1"
    using N by (simp add: ceil_div_rem)
  show ?thesis using sl len sizes nth spread cnt ceil by blast
qed

theorem C1_fair_split_sizes_witness:
  "mset [2, 0, 1] = mset [0..<len_df \<lparr>columns = [''email''], rows = [''a'', ''b'', ''c'']\<rparr>]
   \<and> (2::nat) \<le> 2
   \<and> (\<exists>split_dfs.
          split_leads [2, 0, 1] \<lparr>columns = [''email''], rows = [''a'', ''b'', ''c'']\<rparr> 2
            = Inr split_dfs
          \<and> length split_dfs = 2
          \<and> share_sizes split_dfs = [2, 1]
          \<and> count_size 2 split_dfs = 1)"
proof -
  have perm: "mset [2, 0, 1]
      = mset [0..<len_df \<lparr>columns = [''email''], rows = [''a'', ''b'', ''c'']\<rparr>]"
    by (simp add: len_df_def upt_rec)
  have n: "(2::nat) \<le> 2" by simp
  have sizes: "fair_split_sizes (len_df \<lparr>columns = [''email''], rows = [''a'', ''b'', ''c'']\<rparr>) 2
      = [2, 1]"
    by (simp add: fair_split_sizes_def len_df_def)
  have quot: "len_df \<lparr>columns = [''email''], rows = [''a'', ''b'', ''c'']\<rparr> div 2 + 1 = 2"
    and rem: "len_df \<lparr>columns = [''email''], rows = [''a'', ''b'', ''c'']\<rparr> mod 2 = 1"
    by (simp_all add: len_df_def)
  show ?thesis
    using C1_fair_split_sizes [OF perm n] perm unfolding sizes quot rem by auto
qed

text \<open>
  The claim as stated counts the shares of size \<open>ceil (T / N)\<close> as \<open>T mod N\<close>. Four records
  for two recipients give two shares of size \<open>2 = ceil (4 / 2)\<close>, and \<open>4 mod 2 = 0\<close>.
\<close>

theorem C1_ceiling_count_counterexample:
  "split_leads [0, 1, 2, 3] \<lparr>columns = [''email''], rows = [''a'', ''b'', ''c'', ''d'']\<rparr> 2
     = Inr [\<lparr>columns = [''email''], rows = [''a'', ''b'']\<rparr>,
            \<lparr>columns = [''email''], rows = [''c'', ''d'']\<rparr>]
   \<and> count_size (ceil_div 4 2)
        [\<lparr>columns = [''email''], rows = [''a'', ''b'']\<rparr>,
         \<lparr>columns = [''email''], rows = [''c'', ''d'']\<rparr>] = 2
   \<and> count_size (ceil_div 4 2)
        [\<lparr>columns = [''email''], rows = [''a'', ''b'']\<rparr>,
         \<lparr>columns = [''email''], rows = [''c'', ''d'']\<rparr>] \<noteq> 4 mod 2"
  by code_simp

lemma share_sizes_rows: "share_sizes split_dfs = map length (map rows split_dfs)"
  by (simp add: share_sizes_def len_df_def [abs_def] comp_def)

lemma rows_slice_of_concat:
  assumes "i < length split_dfs"
  shows "rows (split_dfs ! i)
           = slice (concat (map rows split_dfs))
               (sum_list (take i (share_sizes split_dfs)))
               (sum_list (take (Suc i) (share_sizes split_dfs)))"
proof -
  let ?parts = "map rows split_dfs"
  have i: "i < length ?parts" using assms by simp
  have i': "i < length (share_sizes split_dfs)" using assms by (simp add: share_sizes_def)
  have "sum_list (take (Suc i) (share_sizes split_dfs))
          - sum_list (take i (share_sizes split_dfs)) = length (?parts ! i)"
    using i' assms by (simp add: sum_list_take_Suc share_sizes_def len_df_def)
  moreover have "sum_list (take i (share_sizes split_dfs)) = sum_list (map length (take i ?parts))"
    by (simp add: share_sizes_rows take_map)
  ultimately have "slice (concat ?parts)
               (sum_list (take i (share_sizes split_dfs)))
               (sum_list (take (Suc i) (share_sizes split_dfs))) = ?parts ! i"
    unfolding slice_def using concat_slice [OF i] by simp
  then show ?thesis using assms by simp
qed

text \<open>
  Claim C2. For every shuffled RecordSet and every recipient count \<open>N \<ge> 2\<close>, the split
  returns \<open>N\<close> shares that are contiguous slices of the shuffled sequence, each starting
  where the one before ends: share \<open>i\<close> is the slice from the sum of the sizes of the
  shares before it to that sum plus its own size. Their concatenation in recipient order
  is the shuffled RecordSet, so as a multiset no record is dropped and none is duplicated;
  when the shuffle is a permutation, that multiset is the merged RecordSet's.
\<close>

theorem C2_partition_complete:
  assumes "2 \<le> N"
  shows "\<exists>split_dfs. split_leads perm df N = Inr split_dfs
           \<and> length split_dfs = N
           \<and> concat (map rows split_dfs) = rows (reset_index (sample_frac1 perm df))
           \<and> mset (concat (map rows split_dfs)) = mset (rows (reset_index (sample_frac1 perm df)))
           \<and> (\<forall>i<N. rows (split_dfs ! i)
                 = slice (rows (reset_index (sample_frac1 perm df)))
                     (sum_list (take i (share_sizes split_dfs)))
                     (sum_list (take (Suc i) (share_sizes split_dfs))))
           \<and> (mset perm = mset [0..<len_df df]
                 \<longrightarrow> mset (concat (map rows split_dfs)) = mset (rows df))"
proof -
  have N: "0 < N" using assms by simp
  let ?shuffled = "rows (reset_index (sample_frac1 perm df))"
  have sh: "?shuffled = map (\<lambda>k. rows df ! k) perm"
    by (simp add: reset_index_def sample_frac1_def)
  obtain split_dfs where sl: "split_leads perm df N = Inr split_dfs"
    and as: "array_split (map (\<lambda>k. rows df ! k) perm) N = Inr (map rows split_dfs)"
    using split_leads_rows [OF N, of perm df] by blast
  have len: "length split_dfs = N"
    using array_split_length [OF N as] by simp
  have cc: "concat (map rows split_dfs) = ?shuffled"
    using array_split_concat [OF N as] by (simp only: sh)
  have sl_i: "\<forall>i<N. rows (split_dfs ! i)
                 = slice ?shuffled
                     (sum_list (take i (share_sizes split_dfs)))
                     (sum_list (take (Suc i) (share_sizes split_dfs)))"
    using rows_slice_of_concat [of _ split_dfs] len unfolding cc by blast
  have ms: "mset perm = mset [0..<len_df df]
              \<longrightarrow> mset (concat (map rows split_dfs)) = mset (rows df)"
  proof
    assume "mset perm = mset [0..<len_df df]"
    then have "mset (map (\<lambda>k. rows df ! k) perm) = mset (rows df)"
      unfolding len_df_def by (rule mset_permuted)
    then show "mset (concat (map rows split_dfs)) = mset (rows df)"
      by (simp only: cc sh)
  qed
  show ?thesis using sl len cc sl_i ms by auto
qed

theorem C2_partition_complete_witness:
  "(2::nat) \<le> 2
   \<and> (\<exists>split_dfs.
          split_leads [2, 0, 1] \<lparr>columns = [''email''], rows = [''a'', ''b'', ''c'']\<rparr> 2
            = Inr split_dfs
          \<and> concat (map rows split_dfs) = [''c'', ''a'', ''b'']
          \<and> mset (concat (map rows split_dfs)) = mset [''a'', ''b'', ''c''])"
proof -
  have n: "(2::nat) \<le> 2" by simp
  have sh: "rows (reset_index (sample_frac1 [2, 0, 1]
              \<lparr>columns = [''email''], rows = [''a'', ''b'', ''c'']\<rparr>)) = [''c'', ''a'', ''b'']"
    by (simp add: reset_index_def sample_frac1_def)
  have perm: "mset [2, 0, 1]
      = mset [0..<len_df \<lparr>columns = [''email''], rows = [''a'', ''b'', ''c'']\<rparr>]"
    by (simp add: len_df_def upt_rec)
  show ?thesis
    using C2_partition_complete [OF n, of "[2, 0, 1]"
        "\<lparr>columns = [''email''], rows = [''a'', ''b'', ''c'']\<rparr>"] perm
    unfolding sh by auto
qed

section \<open>Ingestion\<close>

lemma ingest_file_all_dfs:
  "all_dfs (ingest_file L st f)
     = all_dfs st @ (if included L f then [parsed_df L f] else [])"
  by (simp add: ingest_file_def included_def parsed_df_def split: sum.splits)

lemma ingest_file_error_files:
  "error_files (ingest_file L st f) = error_files st @ (if fails L f then [name f] else [])"
  by (simp add: ingest_file_def fails_def split: sum.splits)

lemma ingest_file_shown:
  "shown (ingest_file L st f) = shown st @ diagnostics_of L f"
  by (simp add: ingest_file_def diagnostics_of_def split: sum.splits)

lemma ingest_loop_all_dfs:
  "all_dfs (ingest_loop L st fs) = all_dfs st @ map (parsed_df L) (filter (included L) fs)"
  by (induction fs arbitrary: st) (simp_all add: ingest_file_all_dfs)

lemma ingest_loop_error_files:
  "error_files (ingest_loop L st fs) = error_files st @ map name (filter (fails L) fs)"
  by (induction fs arbitrary: st) (simp_all add: ingest_file_error_files)

lemma ingest_loop_shown:
  "shown (ingest_loop L st fs) = shown st @ concat (map (diagnostics_of L) fs)"
  by (induction fs arbitrary: st) (simp_all add: ingest_file_shown)

lemma process_uploaded_files_eq:
  "process_uploaded_files L fs =
     (if filter (included L) fs = []
      then (pd_DataFrame,
            if fs = [] then [] else concat (map (diagnostics_of L) fs) @ [Error_no_valid_lead_data])
      else (pd_concat (map (parsed_df L) (filter (included L) fs)),
            concat (map (diagnostics_of L) fs)))"
  by (auto simp: process_uploaded_files_def Let_def ingest_loop_all_dfs ingest_loop_shown
      ingest_init_def)

text \<open>
  Claim C4. For every sequence of uploaded files, the rows of the merged RecordSet are
  the rows of the files that parse to a non-empty DataFrame, file after file in the order
  the files were supplied and in each file's own row order; failed and empty files are
  skipped. The list the loop collects holds exactly those files' DataFrames, in order.
\<close>

theorem C4_merge_order:
  "rows (fst (process_uploaded_files L files))
     = concat (map (\<lambda>f. rows (parsed_df L f)) (filter (included L) files))
   \<and> all_dfs (ingest_loop L ingest_init files)
       = map (parsed_df L) (filter (included L) files)"
  by (simp add: process_uploaded_files_eq pd_concat_def pd_DataFrame_def comp_def
      ingest_loop_all_dfs ingest_init_def)

theorem C4_merge_order_witness:
  "rows (fst (process_uploaded_files demo_lib [file_A, file_B, file_C]))
     = [''a1'', ''a2'', ''b1'', ''b2'', ''b3'']"
proof -
  have "concat (map (\<lambda>f. rows (parsed_df demo_lib f))
                 (filter (included demo_lib) [file_A, file_B, file_C]))
          = [''a1'', ''a2'', ''b1'', ''b2'', ''b3'']"
    by code_simp
  then show ?thesis
    using C4_merge_order [of demo_lib "[file_A, file_B, file_C]"] by simp
qed

lemma included_not_fails: "fails L f \<Longrightarrow> \<not> included L f"
  by (simp add: fails_def included_def split: sum.splits)

text \<open>
  Claim C5. When decoding or parsing a file raises, the loop catches it for that file
  alone: the file's name is recorded in \<open>error_files\<close> (which lists the failing files in
  order), the error message with the file's name and the exception is shown, and the
  other files are processed as if the failing one were absent: the collected DataFrames and
  the DataFrame returned are those of the batch without it. The function returns a
  DataFrame on every input; no exception of a file leaves it.
\<close>

theorem C5_parse_failure_is_local:
  assumes "read_file L bad = Inl e"
  shows "name bad \<in> set (error_files (ingest_loop L ingest_init (pre @ bad # post)))
       \<and> error_files (ingest_loop L ingest_init (pre @ bad # post))
           = map name (filter (fails L) (pre @ bad # post))
       \<and> Error_reading_file (name bad) e \<in> set (snd (process_uploaded_files L (pre @ bad # post)))
       \<and> all_dfs (ingest_loop L ingest_init (pre @ bad # post))
           = all_dfs (ingest_loop L ingest_init (pre @ post))
       \<and> fst (process_uploaded_files L (pre @ bad # post))
           = fst (process_uploaded_files L (pre @ post))"
proof -
  have f: "fails L bad" using assms by (simp add: fails_def)
  then have ni: "\<not> included L bad" by (rule included_not_fails)
  have d: "diagnostics_of L bad = [Error_reading_file (name bad) e]"
    using assms by (simp add: diagnostics_of_def)
  have 1: "name bad \<in> set (error_files (ingest_loop L ingest_init (pre @ bad # post)))"
    using f by (simp add: ingest_loop_error_files)
  have 2: "error_files (ingest_loop L ingest_init (pre @ bad # post))
           = map name (filter (fails L) (pre @ bad # post))"
    by (simp add: ingest_loop_error_files ingest_init_def)
  have 3: "Error_reading_file (name bad) e
             \<in> set (snd (process_uploaded_files L (pre @ bad # post)))"
    by (simp add: process_uploaded_files_eq d)
  have 4: "all_dfs (ingest_loop L ingest_init (pre @ bad # post))
           = all_dfs (ingest_loop L ingest_init (pre @ post))"
    using ni by (simp add: ingest_loop_all_dfs)
  have 5: "fst (process_uploaded_files L (pre @ bad # post))
           = fst (process_uploaded_files L (pre @ post))"
    using ni by (simp add: process_uploaded_files_eq)
  show ?thesis using 1 2 3 4 5 by blast
qed

theorem C5_parse_failure_is_local_witness:
  "read_file demo_lib file_C = Inl (UnicodeDecodeError ''invalid start byte'')
   \<and> error_files (ingest_loop demo_lib ingest_init [file_A, file_C, file_B]) = [''C.csv'']
   \<and> Error_reading_file ''C.csv'' (UnicodeDecodeError ''invalid start byte'')
        \<in> set (snd (process_uploaded_files demo_lib [file_A, file_C, file_B]))
   \<and> fst (process_uploaded_files demo_lib [file_A, file_C, file_B])
        = fst (process_uploaded_files demo_lib [file_A, file_B])"
proof -
  have bad: "read_file demo_lib file_C = Inl (UnicodeDecodeError ''invalid start byte'')"
    by code_simp
  have nm: "name file_C = ''C.csv''"
    by (simp add: file_C_def)
  have fl: "map name (filter (fails demo_lib) [file_A, file_C, file_B]) = [''C.csv'']"
    by code_simp
  note inst = C5_parse_failure_is_local [OF bad, of "[file_A]" "[file_B]",
      unfolded append.simps nm fl]
  show ?thesis using inst bad by blast
qed

lemma no_rows_not_included: "fails_or_no_rows L f \<Longrightarrow> \<not> included L f"
  by (simp add: fails_or_no_rows_def included_def empty_df_def split: sum.splits)

lemma none_included:
  "list_all (fails_or_no_rows L) fs \<Longrightarrow> filter (included L) fs = []"
  by (induction fs) (simp_all add: no_rows_not_included)

lemma downloads_append: "downloads (xs @ ys) = downloads xs @ downloads ys"
  by (simp add: downloads_def map_filter_def)

lemma downloads_Cons:
  "downloads (el # els) = (case download_of el of None \<Rightarrow> downloads els | Some b \<Rightarrow> b # downloads els)"
  by (simp add: downloads_def map_filter_def split: option.splits)

lemma downloads_Nil: "downloads [] = []"
  by (simp add: downloads_def map_filter_def)

lemma downloads_diagnostics_of: "downloads (diagnostics_of L f) = []"
  by (simp add: diagnostics_of_def downloads_Cons downloads_Nil split: sum.splits)

lemma downloads_diagnostics: "downloads (concat (map (diagnostics_of L) fs)) = []"
  by (induction fs) (simp_all add: downloads_Nil downloads_append downloads_diagnostics_of)

lemma empty_pd_DataFrame: "empty_df pd_DataFrame"
  by (simp add: empty_df_def pd_DataFrame_def)

lemma section3_none_included:
  assumes "filter (included L) fs = []"
  shows "section3 L perm today cache names fs valid clicked =
           (if names \<noteq> [] \<and> fs \<noteq> [] \<and> valid then
              \<lparr>page = [Info_processing] @ concat (map (diagnostics_of L) fs)
                        @ [Error_no_valid_lead_data] @ [Warning_could_not_proceed],
               raised = None, final_cache = cache\<rparr>
            else if clicked then
              \<lparr>page = (if names = [] then [Error_need_names] else [])
                       @ (if fs = [] then [Error_need_files]
                          else if \<not> valid then [Error_need_fewer_files] else []),
               raised = None, final_cache = cache\<rparr>
            else \<lparr>page = [], raised = None, final_cache = cache\<rparr>)"
  using assms by (simp add: section3_def process_uploaded_files_eq empty_pd_DataFrame)

lemma app_eq:
  "app L perm today cache inp =
     (section3 L perm today cache (fst (section1 (names_input inp))) (uploaded_files inp)
        (fst (section2 (uploaded_files inp))) (process_clicked inp))
     \<lparr>page := snd (section1 (names_input inp)) @ snd (section2 (uploaded_files inp))
               @ page (section3 L perm today cache (fst (section1 (names_input inp)))
                         (uploaded_files inp) (fst (section2 (uploaded_files inp)))
                         (process_clicked inp))\<rparr>"
  by (simp add: app_def case_prod_beta Let_def)

text \<open>
  Claim C6. When every uploaded file fails or yields zero data rows, ingestion returns
  the empty DataFrame, the run ends without an exception and shows no download button (zero
  shares); and when processing is invoked (at least two names, one to ten files) the page
  shows the error "No valid lead data found" of ingestion and the warning that splitting
  could not proceed.
\<close>

theorem C6_no_valid_files:
  assumes "list_all (fails_or_no_rows L) (uploaded_files inp)"
  shows "fst (process_uploaded_files L (uploaded_files inp)) = pd_DataFrame
       \<and> (\<exists>els. app L perm today cache inp
                   = \<lparr>page = els, raised = None, final_cache = cache\<rparr>
             \<and> downloads els = []
             \<and> (2 \<le> length (parse_names (names_input inp))
                  \<and> uploaded_files inp \<noteq> [] \<and> length (uploaded_files inp) \<le> 10
                \<longrightarrow> Error_no_valid_lead_data \<in> set els
                    \<and> Error_no_valid_lead_data
                         \<in> set (snd (process_uploaded_files L (uploaded_files inp)))
                    \<and> Warning_could_not_proceed \<in> set els))"
proof -
  have ni: "filter (included L) (uploaded_files inp) = []"
    using assms by (rule none_included)
  have 1: "fst (process_uploaded_files L (uploaded_files inp)) = pd_DataFrame"
    by (simp add: process_uploaded_files_eq ni)
  have 2: "\<exists>els. app L perm today cache inp
                   = \<lparr>page = els, raised = None, final_cache = cache\<rparr>
             \<and> downloads els = []
             \<and> (2 \<le> length (parse_names (names_input inp))
                  \<and> uploaded_files inp \<noteq> [] \<and> length (uploaded_files inp) \<le> 10
                \<longrightarrow> Error_no_valid_lead_data \<in> set els
                    \<and> Error_no_valid_lead_data
                         \<in> set (snd (process_uploaded_files L (uploaded_files inp)))
                    \<and> Warning_could_not_proceed \<in> set els)"
    by (auto simp: app_eq section1_def section2_def Let_def section3_none_included [OF ni]
        process_uploaded_files_eq ni
        downloads_append downloads_Cons downloads_Nil downloads_diagnostics)
  show ?thesis using 1 2 by blast
qed

theorem C6_no_valid_files_witness:
  "list_all (fails_or_no_rows demo_lib) [file_C, file_D]
   \<and> (\<exists>els. app demo_lib [] \<lparr>year = 2026, month = 11, day = 4\<rparr> Map.empty
               \<lparr>names_input = ''Ann'' @ [CHR 0x0A] @ ''Bob'',
                uploaded_files = [file_C, file_D], process_clicked = False\<rparr>
             = \<lparr>page = els, raised = None, final_cache = Map.empty\<rparr>
           \<and> downloads els = []
           \<and> Error_no_valid_lead_data \<in> set els
           \<and> Warning_could_not_proceed \<in> set els)"
proof -
  let ?inp = "\<lparr>names_input = ''Ann'' @ [CHR 0x0A] @ ''Bob'',
                uploaded_files = [file_C, file_D], process_clicked = False\<rparr>"
  have h: "list_all (fails_or_no_rows demo_lib) (uploaded_files ?inp)"
    by code_simp
  have g: "2 \<le> length (parse_names (names_input ?inp))
           \<and> uploaded_files ?inp \<noteq> [] \<and> length (uploaded_files ?inp) \<le> 10"
    by code_simp
  show ?thesis
    using C6_no_valid_files [OF h, of "[]" "\<lparr>year = 2026, month = 11, day = 4\<rparr>" Map.empty] h g
    by auto
qed

section \<open>The loop over the recipients\<close>

lemma button_for_fields:
  "file_name (fst (button_for L ts cache person_df person))
     = ''leads_'' @ ts @ ''_'' @ replace person CHR '' '' CHR ''_'' @ ''.csv''"
  "key (fst (button_for L ts cache person_df person)) = ''download_'' @ person"
  by (simp_all add: button_for_def generate_csv_download_def Let_def case_prod_beta)

lemma render_recipient_no_split:
  "\<not> i < length split_dfs \<Longrightarrow>
     render_recipient L ts nc split_dfs cache keys i person
       = (Inr (Write_no_split_data (i mod nc) person), cache, keys)"
  by (simp add: render_recipient_def)

lemma render_recipient_no_leads:
  "i < length split_dfs \<Longrightarrow> empty_df (split_dfs ! i) \<Longrightarrow>
     render_recipient L ts nc split_dfs cache keys i person
       = (Inr (Write_no_leads (i mod nc) person), cache, keys)"
  by (simp add: render_recipient_def)

lemma render_recipient_download:
  assumes "i < length split_dfs" and "\<not> empty_df (split_dfs ! i)"
  shows "render_recipient L ts nc split_dfs cache keys i person
           = (if ''download_'' @ person \<in> set keys
              then (Inl (DuplicateWidgetID (''download_'' @ person)),
                    snd (button_for L ts cache (split_dfs ! i) person), keys)
              else (Inr (Download (i mod nc) (fst (button_for L ts cache (split_dfs ! i) person))),
                    snd (button_for L ts cache (split_dfs ! i) person),
                    (''download_'' @ person) # keys))"
  using assms
  by (simp add: render_recipient_def Let_def case_prod_beta st_download_button_def
      button_for_fields)

lemma render_recipient_cases:
  "render_recipient L ts nc split_dfs cache keys i person
     = (if gets_button split_dfs i then
          (if ''download_'' @ person \<in> set keys
           then (Inl (DuplicateWidgetID (''download_'' @ person)),
                 snd (button_for L ts cache (split_dfs ! i) person), keys)
           else (Inr (Download (i mod nc) (fst (button_for L ts cache (split_dfs ! i) person))),
                 snd (button_for L ts cache (split_dfs ! i) person),
                 (''download_'' @ person) # keys))
        else if i < length split_dfs then (Inr (Write_no_leads (i mod nc) person), cache, keys)
        else (Inr (Write_no_split_data (i mod nc) person), cache, keys))"
  by (simp add: gets_button_def render_recipient_download render_recipient_no_leads
      render_recipient_no_split)

lemma render_loop_Cons:
  "render_loop L ts nc split_dfs cache keys i (person # rest)
     = (case fst (render_recipient L ts nc split_dfs cache keys i person) of
          Inl e \<Rightarrow> \<lparr>page = [], raised = Some e,
                     final_cache = fst (snd (render_recipient L ts nc split_dfs cache keys i person))\<rparr>
        | Inr el \<Rightarrow>
            (render_loop L ts nc split_dfs
               (fst (snd (render_recipient L ts nc split_dfs cache keys i person)))
               (snd (snd (render_recipient L ts nc split_dfs cache keys i person))) (Suc i) rest)
            \<lparr>page := el # page (render_loop L ts nc split_dfs
               (fst (snd (render_recipient L ts nc split_dfs cache keys i person)))
               (snd (snd (render_recipient L ts nc split_dfs cache keys i person))) (Suc i) rest)\<rparr>)"
  by (cases "render_recipient L ts nc split_dfs cache keys i person")
     (simp add: Let_def split: sum.splits)

lemma render_loop_step:
  "render_loop L ts nc split_dfs cache keys i (person # rest)
     = (if gets_button split_dfs i then
          (if ''download_'' @ person \<in> set keys
           then \<lparr>page = [], raised = Some (DuplicateWidgetID (''download_'' @ person)),
                 final_cache = snd (button_for L ts cache (split_dfs ! i) person)\<rparr>
           else (render_loop L ts nc split_dfs
                   (snd (button_for L ts cache (split_dfs ! i) person))
                   ((''download_'' @ person) # keys) (Suc i) rest)
                \<lparr>page := Download (i mod nc) (fst (button_for L ts cache (split_dfs ! i) person))
                     # page (render_loop L ts nc split_dfs
                              (snd (button_for L ts cache (split_dfs ! i) person))
                              ((''download_'' @ person) # keys) (Suc i) rest)\<rparr>)
        else (render_loop L ts nc split_dfs cache keys (Suc i) rest)
             \<lparr>page := (if i < length split_dfs then Write_no_leads (i mod nc) person
                        else Write_no_split_data (i mod nc) person)
                  # page (render_loop L ts nc split_dfs cache keys (Suc i) rest)\<rparr>)"
  unfolding render_loop_Cons by (simp add: render_recipient_cases)

lemma render_loop_length_le:
  "length (page (render_loop L ts nc split_dfs cache keys i names)) \<le> length names"
proof (induction names arbitrary: cache keys i)
  case Nil
  then show ?case by simp
next
  case (Cons person rest)
  show ?case
    unfolding render_loop_step using Cons.IH by simp
qed

lemma render_loop_raised:
  "raised (render_loop L ts nc split_dfs cache keys i names) = None
   \<or> (\<exists>k. raised (render_loop L ts nc split_dfs cache keys i names)
             = Some (DuplicateWidgetID k))"
proof (induction names arbitrary: cache keys i)
  case Nil
  then show ?case by simp
next
  case (Cons person rest)
  show ?case
    unfolding render_loop_step using Cons.IH by simp
qed

lemma render_loop_nth:
  "k < length (page (render_loop L ts nc split_dfs cache keys i names)) \<Longrightarrow>
     page (render_loop L ts nc split_dfs cache keys i names) ! k
       = (if gets_button split_dfs (i + k)
          then Download ((i + k) mod nc)
                 (fst (button_for L ts
                    (final_cache (render_loop L ts nc split_dfs cache keys i (take k names)))
                    (split_dfs ! (i + k)) (names ! k)))
          else if i + k < length split_dfs then Write_no_leads ((i + k) mod nc) (names ! k)
          else Write_no_split_data ((i + k) mod nc) (names ! k))"
proof (induction names arbitrary: cache keys i k)
  case Nil
  then show ?case by simp
next
  case (Cons person rest)
  show ?case
  proof (cases k)
    case 0
    then show ?thesis
      using Cons.prems unfolding render_loop_step by (simp split: if_splits)
  next
    case (Suc k')
    show ?thesis
    proof (cases "gets_button split_dfs i")
      case True
      then have nk: "''download_'' @ person \<notin> set keys"
        using Cons.prems unfolding render_loop_step by (simp split: if_splits)
      have "k' < length (page (render_loop L ts nc split_dfs
                   (snd (button_for L ts cache (split_dfs ! i) person))
                   ((''download_'' @ person) # keys) (Suc i) rest))"
        using Cons.prems True nk Suc unfolding render_loop_step by simp
      from Cons.IH [OF this] show ?thesis
        using True nk Suc by (simp add: render_loop_step del: render_loop.simps(2))
    next
      case False
      have "k' < length (page (render_loop L ts nc split_dfs cache keys (Suc i) rest))"
        using Cons.prems False Suc unfolding render_loop_step by simp
      from Cons.IH [OF this] show ?thesis
        using False Suc by (simp add: render_loop_step del: render_loop.simps(2))
    qed
  qed
qed

lemma set_button_names: "set (button_names split_dfs i xs) \<subseteq> set xs"
  by (induction xs arbitrary: i) auto

lemma distinct_button_names: "distinct xs \<Longrightarrow> distinct (button_names split_dfs i xs)"
proof (induction xs arbitrary: i)
  case Nil
  then show ?case by simp
next
  case (Cons x xs)
  then show ?case using set_button_names [of split_dfs "Suc i" xs] by auto
qed

lemma render_loop_reaches:
  "n \<le> length names \<Longrightarrow> distinct (button_names split_dfs i (take n names)) \<Longrightarrow>
   (\<forall>p\<in>set (button_names split_dfs i (take n names)). ''download_'' @ p \<notin> set keys) \<Longrightarrow>
     n \<le> length (page (render_loop L ts nc split_dfs cache keys i names))
     \<and> (n = length names \<longrightarrow> raised (render_loop L ts nc split_dfs cache keys i names) = None)"
proof (induction names arbitrary: n cache keys i)
  case Nil
  then show ?case by simp
next
  case (Cons person rest)
  show ?case
  proof (cases n)
    case 0
    then show ?thesis by simp
  next
    case (Suc n')
    have n': "n' \<le> length rest" using Cons.prems(1) Suc by simp
    show ?thesis
    proof (cases "gets_button split_dfs i")
      case True
      have bn: "button_names split_dfs i (take n (person # rest))
                  = person # button_names split_dfs (Suc i) (take n' rest)"
        using True Suc by simp
      have nk: "''download_'' @ person \<notin> set keys"
        using Cons.prems(3) unfolding bn by simp
      have d: "distinct (button_names split_dfs (Suc i) (take n' rest))"
        and np: "person \<notin> set (button_names split_dfs (Suc i) (take n' rest))"
        using Cons.prems(2) unfolding bn by simp_all
      have k: "\<forall>p\<in>set (button_names split_dfs (Suc i) (take n' rest)).
                 ''download_'' @ p \<notin> set ((''download_'' @ person) # keys)"
        using Cons.prems(3) np unfolding bn by auto
      from Cons.IH [OF n' d k] show ?thesis
        using True nk Suc by (simp add: render_loop_step del: render_loop.simps(2))
    next
      case False
      have bn: "button_names split_dfs i (take n (person # rest))
                  = button_names split_dfs (Suc i) (take n' rest)"
        using False Suc by simp
      from Cons.IH [OF n' Cons.prems(2) [unfolded bn] Cons.prems(3) [unfolded bn]]
      show ?thesis
        using False Suc by (simp add: render_loop_step del: render_loop.simps(2))
    qed
  qed
qed

section \<open>The third section of the script\<close>

lemma split_leads_shares:
  assumes "0 < N"
  shows "\<exists>split_dfs. split_leads perm df N = Inr split_dfs \<and> length split_dfs = N
           \<and> (\<forall>i<N. columns (split_dfs ! i) = columns df)
           \<and> (length perm = len_df df \<longrightarrow>
                 (\<forall>i<N. len_df (split_dfs ! i)
                    = (if i < len_df df mod N then len_df df div N + 1 else len_df df div N)))"
proof -
  obtain split_dfs where sl: "split_leads perm df N = Inr split_dfs"
    and as: "array_split (map (\<lambda>k. rows df ! k) perm) N = Inr (map rows split_dfs)"
    and cols: "list_all (\<lambda>s. columns s = columns df) split_dfs"
    using split_leads_rows [OF assms, of perm df] by blast
  have len: "length split_dfs = N"
    using array_split_length [OF assms as] by simp
  have c: "\<forall>i<N. columns (split_dfs ! i) = columns df"
    using cols len by (simp add: list_all_length)
  have sz: "length perm = len_df df \<longrightarrow>
                 (\<forall>i<N. len_df (split_dfs ! i)
                    = (if i < len_df df mod N then len_df df div N + 1 else len_df df div N))"
  proof (intro impI allI)
    fix i assume lp: "length perm = len_df df" and i: "i < N"
    have "map length (map rows split_dfs) = fair_split_sizes (length perm) N"
      using array_split_sizes [OF assms as] by simp
    then have "share_sizes split_dfs = fair_split_sizes (len_df df) N"
      by (simp add: share_sizes_rows lp)
    moreover have "len_df (split_dfs ! i) = share_sizes split_dfs ! i"
      using i len by (simp add: share_sizes_def)
    ultimately show "len_df (split_dfs ! i)
                    = (if i < len_df df mod N then len_df df div N + 1 else len_df df div N)"
      using i by (simp only: nth_fair_split_sizes)
  qed
  show ?thesis using sl len c sz by blast
qed

lemma section3_split:
  assumes "names \<noteq> []" and "fs \<noteq> []" and "valid"
    and "\<not> empty_df (fst (process_uploaded_files L fs))"
  shows "\<exists>split_dfs.
           split_leads perm (fst (process_uploaded_files L fs)) (length names) = Inr split_dfs
         \<and> length split_dfs = length names
         \<and> section3 L perm today cache names fs valid clicked
             = (render_loop L (strftime_Ymd today) (min (length names) 4) split_dfs cache []
                  0 names)
               \<lparr>page := [Info_processing] @ snd (process_uploaded_files L fs)
                      @ [Success_combined (len_df (fst (process_uploaded_files L fs))) (length fs)]
                      @ (if len_df (fst (process_uploaded_files L fs)) < length names
                         then [Warning_fewer_leads (len_df (fst (process_uploaded_files L fs)))
                                 (length names)]
                         else [])
                      @ [Write_splitting (length names) names]
                      @ [Subheader_download]
                      @ page (render_loop L (strftime_Ymd today) (min (length names) 4)
                                split_dfs cache [] 0 names)\<rparr>"
proof -
  have N: "0 < length names" using assms(1) by simp
  obtain split_dfs where
    sl: "split_leads perm (fst (process_uploaded_files L fs)) (length names) = Inr split_dfs"
    and len: "length split_dfs = length names"
    using split_leads_shares [OF N, of perm "fst (process_uploaded_files L fs)"] by blast
  show ?thesis
    using assms sl len
    by (simp add: section3_def Let_def case_prod_beta)
qed

lemma section3_not_split:
  assumes "\<not> (names \<noteq> [] \<and> fs \<noteq> [] \<and> valid
              \<and> \<not> empty_df (fst (process_uploaded_files L fs)))"
  shows "section3 L perm today cache names fs valid clicked =
           (if names \<noteq> [] \<and> fs \<noteq> [] \<and> valid then
              \<lparr>page = [Info_processing] @ snd (process_uploaded_files L fs)
                        @ [Warning_could_not_proceed],
               raised = None, final_cache = cache\<rparr>
            else if clicked then
              \<lparr>page = (if names = [] then [Error_need_names] else [])
                       @ (if fs = [] then [Error_need_files]
                          else if \<not> valid then [Error_need_fewer_files] else []),
               raised = None, final_cache = cache\<rparr>
            else \<lparr>page = [], raised = None, final_cache = cache\<rparr>)"
  using assms by (auto simp: section3_def Let_def case_prod_beta)

lemma render_loop_in_range:
  assumes "length names \<le> length split_dfs"
  shows "\<not> list_ex is_no_split_data (page (render_loop L ts nc split_dfs cache keys 0 names))"
proof
  let ?els = "page (render_loop L ts nc split_dfs cache keys 0 names)"
  assume "list_ex is_no_split_data ?els"
  then obtain k where k: "k < length ?els" and bad: "is_no_split_data (?els ! k)"
    by (auto simp: list_ex_length)
  have "k < length names"
    using k render_loop_length_le [of L ts nc split_dfs cache keys 0 names] by simp
  then have "0 + k < length split_dfs" using assms by simp
  then show False using bad render_loop_nth [OF k] by (simp split: if_splits)
qed

lemma no_split_diagnostics:
  "\<not> list_ex is_no_split_data (concat (map (diagnostics_of L) fs))"
  by (induction fs) (simp_all add: diagnostics_of_def split: sum.splits)

lemma no_split_process:
  "\<not> list_ex is_no_split_data (snd (process_uploaded_files L fs))"
  using no_split_diagnostics [of L fs] by (simp add: process_uploaded_files_eq)

lemma no_split_section1: "\<not> list_ex is_no_split_data (snd (section1 s))"
  by (simp add: section1_def Let_def)

lemma no_split_section2: "\<not> list_ex is_no_split_data (snd (section2 fs))"
  by (simp add: section2_def)

lemma section3_no_split:
  "\<not> list_ex is_no_split_data (page (section3 L perm today cache names fs valid clicked))
   \<and> (\<forall>m. raised (section3 L perm today cache names fs valid clicked) \<noteq> Some (ValueError m))"
proof (cases "names \<noteq> [] \<and> fs \<noteq> [] \<and> valid
              \<and> \<not> empty_df (fst (process_uploaded_files L fs))")
  case True
  then obtain split_dfs where len: "length split_dfs = length names"
    and s3: "section3 L perm today cache names fs valid clicked
             = (render_loop L (strftime_Ymd today) (min (length names) 4) split_dfs cache []
                  0 names)
               \<lparr>page := [Info_processing] @ snd (process_uploaded_files L fs)
                      @ [Success_combined (len_df (fst (process_uploaded_files L fs))) (length fs)]
                      @ (if len_df (fst (process_uploaded_files L fs)) < length names
                         then [Warning_fewer_leads (len_df (fst (process_uploaded_files L fs)))
                                 (length names)]
                         else [])
                      @ [Write_splitting (length names) names]
                      @ [Subheader_download]
                      @ page (render_loop L (strftime_Ymd today) (min (length names) 4)
                                split_dfs cache [] 0 names)\<rparr>"
    using section3_split [of names fs valid L perm today cache clicked] by blast
  have a: "\<not> list_ex is_no_split_data
          (page (render_loop L (strftime_Ymd today) (min (length names) 4) split_dfs cache [] 0
                   names))"
    by (rule render_loop_in_range) (simp add: len)
  have b: "\<forall>m. raised (render_loop L (strftime_Ymd today) (min (length names) 4) split_dfs
                          cache [] 0 names) \<noteq> Some (ValueError m)"
    using render_loop_raised [of L "strftime_Ymd today" "min (length names) 4" split_dfs cache
        "[]" 0 names] by auto
  show ?thesis
    unfolding s3 using a b no_split_process [of L fs] by simp
next
  case False
  show ?thesis
    unfolding section3_not_split [OF False]
    using no_split_process [of L fs] by simp
qed

text \<open>
  Claim C10. For every RecordSet size \<open>T \<ge> 0\<close> (also \<open>T = 0\<close> and \<open>T < N\<close>) and every
  list of \<open>N \<ge> 2\<close> recipients, the split returns a list of exactly \<open>N\<close> shares, so the
  guard \<open>i < len(split_dfs)\<close> holds at every recipient index and the loop never shows "No
  split data available"; no run of the script shows it, and no run is ended by the
  \<open>ValueError\<close> of the split.
\<close>

theorem C10_every_recipient_has_a_share:
  assumes "2 \<le> length names"
  shows "(\<exists>split_dfs. split_leads perm df (length names) = Inr split_dfs
            \<and> length split_dfs = length names
            \<and> (\<forall>i<length names. i < length split_dfs)
            \<and> \<not> list_ex is_no_split_data
                  (page (render_loop L today_str ncols split_dfs cache keys 0 names)))
       \<and> \<not> list_ex is_no_split_data (page (app L perm today cache inp))
       \<and> (\<forall>m. raised (app L perm today cache inp) \<noteq> Some (ValueError m))"
proof -
  have N: "0 < length names" using assms by (cases names) simp_all
  obtain split_dfs where sl: "split_leads perm df (length names) = Inr split_dfs"
    and len: "length split_dfs = length names"
    using split_leads_shares [OF N, of perm df] by blast
  have "\<not> list_ex is_no_split_data
          (page (render_loop L today_str ncols split_dfs cache keys 0 names))"
    by (rule render_loop_in_range) (simp add: len)
  then have 1: "\<exists>split_dfs. split_leads perm df (length names) = Inr split_dfs
            \<and> length split_dfs = length names
            \<and> (\<forall>i<length names. i < length split_dfs)
            \<and> \<not> list_ex is_no_split_data
                  (page (render_loop L today_str ncols split_dfs cache keys 0 names))"
    using sl len by auto
  have 2: "\<not> list_ex is_no_split_data (page (app L perm today cache inp))
       \<and> (\<forall>m. raised (app L perm today cache inp) \<noteq> Some (ValueError m))"
    unfolding app_eq
    using section3_no_split [of L perm today cache "fst (section1 (names_input inp))"
        "uploaded_files inp" "fst (section2 (uploaded_files inp))" "process_clicked inp"]
      no_split_section1 [of "names_input inp"] no_split_section2 [of "uploaded_files inp"]
    by simp
  show ?thesis using 1 2 by blast
qed

theorem C10_every_recipient_has_a_share_witness:
  "2 \<le> length [''A'', ''B'', ''C'']
   \<and> (\<exists>split_dfs.
          split_leads [] \<lparr>columns = [''email''], rows = ([] :: string list)\<rparr>
              (length [''A'', ''B'', ''C'']) = Inr split_dfs
          \<and> length split_dfs = length [''A'', ''B'', ''C'']
          \<and> \<not> list_ex is_no_split_data
                (page (render_loop demo_lib ''2026-11-04'' 3 split_dfs Map.empty [] 0
                         [''A'', ''B'', ''C''])))"
proof -
  have n: "2 \<le> length [''A'', ''B'', ''C'']" by simp
  note inst = C10_every_recipient_has_a_share [OF n, where perm = "[]"
        and df = "\<lparr>columns = [''email''], rows = ([] :: string list)\<rparr>"
        and L = demo_lib and today_str = "''2026-11-04''" and ncols = 3 and cache = Map.empty
        and keys = "[]"
        and today = "\<lparr>year = 2026, month = 11, day = 4\<rparr>"
        and inp = "\<lparr>names_input = [], uploaded_files = [], process_clicked = False\<rparr>",
        THEN conjunct1]
  show ?thesis using inst n by blast
qed

section \<open>Claims about the page\<close>

lemma downloads_all:
  "list_all (\<lambda>e. download_of e \<noteq> None) xs \<Longrightarrow> length (downloads xs) = length xs"
  by (induction xs) (auto simp: downloads_Cons downloads_Nil split: option.splits)

lemma downloads_none:
  "list_all (\<lambda>e. download_of e = None) xs \<Longrightarrow> downloads xs = []"
  by (induction xs) (auto simp: downloads_Cons downloads_Nil)

lemma button_names_first:
  "(\<forall>k<length names. gets_button split_dfs (i + k) = (k < T)) \<Longrightarrow>
     button_names split_dfs i names = take T names"
proof (induction names arbitrary: i T)
  case Nil
  then show ?case by simp
next
  case (Cons person rest)
  show ?case
  proof (cases T)
    case 0
    have "\<forall>k<length rest. gets_button split_dfs (Suc i + k) = (k < 0)"
      using Cons.prems 0 by auto
    from Cons.IH [OF this] show ?thesis
      using Cons.prems 0 by auto
  next
    case (Suc T')
    have "\<forall>k<length rest. gets_button split_dfs (Suc i + k) = (k < T')"
      using Cons.prems Suc by auto
    from Cons.IH [OF this] show ?thesis
      using Cons.prems Suc by auto
  qed
qed

lemma process_empty_iff:
  "empty_df (fst (process_uploaded_files L fs))
     = (len_df (fst (process_uploaded_files L fs)) = 0)"
proof (cases "filter (included L) fs")
  case Nil
  then show ?thesis
    by (simp add: process_uploaded_files_eq empty_df_def pd_DataFrame_def len_df_def)
next
  case (Cons f rest)
  then have "f \<in> set (filter (included L) fs)" by simp
  then have f: "included L f" by simp
  then have ne: "columns (parsed_df L f) \<noteq> []" "rows (parsed_df L f) \<noteq> []"
    by (auto simp: included_def parsed_df_def empty_df_def split: sum.splits)
  have r: "rows (fst (process_uploaded_files L fs)) \<noteq> []"
    using Cons ne by (simp add: process_uploaded_files_eq pd_concat_def)
  have "set (columns (parsed_df L f)) \<subseteq> set (columns (fst (process_uploaded_files L fs)))"
    using Cons by (auto simp: process_uploaded_files_eq pd_concat_def)
  then have c: "columns (fst (process_uploaded_files L fs)) \<noteq> []"
    using ne(1) by (cases "columns (parsed_df L f)") auto
  show ?thesis using r c by (simp add: empty_df_def len_df_def)
qed

lemma downloads_process: "downloads (snd (process_uploaded_files L fs)) = []"
  by (simp add: process_uploaded_files_eq downloads_diagnostics downloads_append downloads_Cons
      downloads_Nil)

lemma loop_with_few_leads:
  assumes len: "length split_dfs = length names"
    and size: "\<forall>i<length names. len_df (split_dfs ! i) = (if i < T then 1 else 0)"
    and cols: "\<forall>i<length names. columns (split_dfs ! i) \<noteq> []"
    and T: "T \<le> length names"
    and d: "distinct (take T names)"
  shows "raised (render_loop L ts nc split_dfs cache [] 0 names) = None
       \<and> length (page (render_loop L ts nc split_dfs cache [] 0 names)) = length names
       \<and> (\<forall>i<length names. T \<le> i \<longrightarrow>
             page (render_loop L ts nc split_dfs cache [] 0 names) ! i
               = Write_no_leads (i mod nc) (names ! i))
       \<and> (\<forall>i<T. download_of (page (render_loop L ts nc split_dfs cache [] 0 names) ! i)
                   \<noteq> None)
       \<and> length (downloads (page (render_loop L ts nc split_dfs cache [] 0 names))) = T"
proof -
  let ?els = "page (render_loop L ts nc split_dfs cache [] 0 names)"
  have gb: "\<forall>k<length names. gets_button split_dfs (0 + k) = (k < T)"
  proof (intro allI impI)
    fix k assume k: "k < length names"
    have "len_df (split_dfs ! k) = (if k < T then 1 else 0)" using size k by simp
    then have "(rows (split_dfs ! k) \<noteq> []) = (k < T)"
      by (cases "k < T") (auto simp: len_df_def)
    moreover have "columns (split_dfs ! k) \<noteq> []" using cols k by simp
    ultimately show "gets_button split_dfs (0 + k) = (k < T)"
      using k len by (simp add: gets_button_def empty_df_def)
  qed
  have bn: "button_names split_dfs 0 names = take T names"
    using gb by (rule button_names_first)
  have "length names \<le> length ?els
        \<and> (length names = length names \<longrightarrow>
              raised (render_loop L ts nc split_dfs cache [] 0 names) = None)"
    by (rule render_loop_reaches) (simp_all add: bn d)
  then have 1: "raised (render_loop L ts nc split_dfs cache [] 0 names) = None"
    and 2: "length ?els = length names"
    using render_loop_length_le [of L ts nc split_dfs cache "[]" 0 names] by simp_all
  have el: "\<forall>i<length names. ?els ! i
             = (if i < T
                then Download (i mod nc)
                       (fst (button_for L ts
                          (final_cache (render_loop L ts nc split_dfs cache [] 0 (take i names)))
                          (split_dfs ! i) (names ! i)))
                else Write_no_leads (i mod nc) (names ! i))"
  proof (intro allI impI)
    fix i assume i: "i < length names"
    then have "i < length ?els" using 2 by simp
    from render_loop_nth [OF this] show "?els ! i
             = (if i < T
                then Download (i mod nc)
                       (fst (button_for L ts
                          (final_cache (render_loop L ts nc split_dfs cache [] 0 (take i names)))
                          (split_dfs ! i) (names ! i)))
                else Write_no_leads (i mod nc) (names ! i))"
      using gb i len by simp
  qed
  have 3: "\<forall>i<length names. T \<le> i \<longrightarrow> ?els ! i = Write_no_leads (i mod nc) (names ! i)"
    using el by simp
  have 4: "\<forall>i<T. download_of (?els ! i) \<noteq> None"
    using el T by simp
  have a: "list_all (\<lambda>e. download_of e \<noteq> None) (take T ?els)"
    using 4 2 T by (simp add: list_all_length)
  have b: "list_all (\<lambda>e. download_of e = None) (drop T ?els)"
    using 3 2 by (simp add: list_all_length)
  have "downloads ?els = downloads (take T ?els @ drop T ?els)" by simp
  also have "\<dots> = downloads (take T ?els) @ downloads (drop T ?els)"
    by (rule downloads_append)
  finally have "length (downloads ?els) = length (take T ?els)"
    using downloads_all [OF a] downloads_none [OF b] by simp
  then have 5: "length (downloads ?els) = T" using 2 T by simp
  show ?thesis using 1 2 3 4 5 by blast
qed

text \<open>
  Claim C3, as amended. With fewer records than recipients (\<open>T < N\<close>, \<open>N \<ge> 2\<close>), when
  processing is invoked: if \<open>T = 0\<close> the script does not split, it shows the warning that it
  could not proceed and represents no recipient; if \<open>T \<ge> 1\<close> the first \<open>T\<close> recipients
  receive a share of one record and each of the trailing \<open>N - T\<close> recipients receives a
  share of size 0, and, the names of the first \<open>T\<close> recipients being pairwise distinct, the
  run ends without an exception and shows one element per recipient, in recipient order:
  a download button for each of the first \<open>T\<close> and, for each size-0 recipient, the notice
  "No leads assigned" with the recipient's name. No file name and no bytes are produced
  for an empty share: the page has exactly \<open>T\<close> download buttons.
\<close>

theorem C3_empty_shares_get_a_notice:
  assumes "2 \<le> length names" and "fs \<noteq> []"
    and "len_df (fst (process_uploaded_files L fs)) < length names"
    and "mset perm = mset [0..<len_df (fst (process_uploaded_files L fs))]"
  shows
    "(let combined = fst (process_uploaded_files L fs);
          T = len_df combined;
          N = length names;
          r = section3 L perm today cache names fs True clicked
      in (T = 0 \<longrightarrow>
            r = \<lparr>page = [Info_processing] @ snd (process_uploaded_files L fs)
                          @ [Warning_could_not_proceed],
                 raised = None, final_cache = cache\<rparr>)
       \<and> (T \<noteq> 0 \<longrightarrow>
            (\<exists>split_dfs.
                split_leads perm combined N = Inr split_dfs
              \<and> (\<forall>i<N. T \<le> i \<longrightarrow> len_df (split_dfs ! i) = 0)
              \<and> (\<forall>i<T. len_df (split_dfs ! i) = 1)
              \<and> (distinct (take T names) \<longrightarrow>
                    raised r = None
                  \<and> (\<exists>els. page r = [Info_processing] @ snd (process_uploaded_files L fs)
                                      @ [Success_combined T (length fs), Warning_fewer_leads T N,
                                         Write_splitting N names, Subheader_download] @ els
                         \<and> length els = N
                         \<and> (\<forall>i<N. T \<le> i \<longrightarrow>
                               els ! i = Write_no_leads (i mod min N 4) (names ! i))
                         \<and> (\<forall>i<T. download_of (els ! i) \<noteq> None))
                  \<and> length (downloads (page r)) = T))))"
proof -
  let ?combined = "fst (process_uploaded_files L fs)"
  let ?T = "len_df ?combined" and ?N = "length names"
  let ?r = "section3 L perm today cache names fs True clicked"
  let ?head = "\<lambda>els. [Info_processing] @ snd (process_uploaded_files L fs)
                 @ [Success_combined ?T (length fs), Warning_fewer_leads ?T ?N,
                    Write_splitting ?N names, Subheader_download] @ els"
  have names: "names \<noteq> []" using assms(1) by (cases names) simp_all
  have N: "0 < ?N" using names by simp
  have zero: "?T = 0 \<longrightarrow>
            ?r = \<lparr>page = [Info_processing] @ snd (process_uploaded_files L fs)
                          @ [Warning_could_not_proceed],
                 raised = None, final_cache = cache\<rparr>"
  proof
    assume "?T = 0"
    then have "empty_df ?combined" by (simp add: process_empty_iff)
    then have "\<not> (names \<noteq> [] \<and> fs \<noteq> [] \<and> True \<and> \<not> empty_df ?combined)" by simp
    from section3_not_split [OF this] show
      "?r = \<lparr>page = [Info_processing] @ snd (process_uploaded_files L fs)
                          @ [Warning_could_not_proceed],
                 raised = None, final_cache = cache\<rparr>"
      using names assms(2) by simp
  qed
  have pos: "?T \<noteq> 0 \<longrightarrow>
            (\<exists>split_dfs.
                split_leads perm ?combined ?N = Inr split_dfs
              \<and> (\<forall>i<?N. ?T \<le> i \<longrightarrow> len_df (split_dfs ! i) = 0)
              \<and> (\<forall>i<?T. len_df (split_dfs ! i) = 1)
              \<and> (distinct (take ?T names) \<longrightarrow>
                    raised ?r = None
                  \<and> (\<exists>els. page ?r = ?head els
                         \<and> length els = ?N
                         \<and> (\<forall>i<?N. ?T \<le> i \<longrightarrow>
                               els ! i = Write_no_leads (i mod min ?N 4) (names ! i))
                         \<and> (\<forall>i<?T. download_of (els ! i) \<noteq> None))
                  \<and> length (downloads (page ?r)) = ?T))"
  proof
    assume T0: "?T \<noteq> 0"
    then have ne: "\<not> empty_df ?combined" by (simp add: process_empty_iff)
    have "size (mset perm) = size (mset [0..<?T])" using assms(4) by simp
    then have lperm: "length perm = ?T" by simp
    obtain split_dfs where sl: "split_leads perm ?combined ?N = Inr split_dfs"
      and len: "length split_dfs = ?N"
      and cols: "\<forall>i<?N. columns (split_dfs ! i) = columns ?combined"
      and sz: "\<forall>i<?N. len_df (split_dfs ! i)
                 = (if i < ?T mod ?N then ?T div ?N + 1 else ?T div ?N)"
      using split_leads_shares [OF N, of perm ?combined] lperm by blast
    have dm: "?T div ?N = 0" "?T mod ?N = ?T" using assms(3) by simp_all
    have size_i: "\<forall>i<?N. len_df (split_dfs ! i) = (if i < ?T then 1 else 0)"
      using sz unfolding dm by simp
    have cols': "\<forall>i<?N. columns (split_dfs ! i) \<noteq> []"
      using cols ne by (simp add: empty_df_def)
    have s3: "?r = (render_loop L (strftime_Ymd today) (min ?N 4) split_dfs cache [] 0 names)
               \<lparr>page := ?head (page (render_loop L (strftime_Ymd today) (min ?N 4)
                                         split_dfs cache [] 0 names))\<rparr>"
      using section3_split [OF names assms(2) TrueI ne, of perm today cache clicked] sl assms(3)
      by auto
    have a: "\<forall>i<?N. ?T \<le> i \<longrightarrow> len_df (split_dfs ! i) = 0"
      using size_i by simp
    have b: "\<forall>i<?T. len_df (split_dfs ! i) = 1"
      using size_i assms(3) by simp
    have c: "distinct (take ?T names) \<longrightarrow>
                    raised ?r = None
                  \<and> (\<exists>els. page ?r = ?head els
                         \<and> length els = ?N
                         \<and> (\<forall>i<?N. ?T \<le> i \<longrightarrow>
                               els ! i = Write_no_leads (i mod min ?N 4) (names ! i))
                         \<and> (\<forall>i<?T. download_of (els ! i) \<noteq> None))
                  \<and> length (downloads (page ?r)) = ?T"
    proof
      assume d: "distinct (take ?T names)"
      have Tle: "?T \<le> ?N" using assms(3) by simp
      note loop = loop_with_few_leads [OF len size_i cols' Tle d,
          of L "strftime_Ymd today" "min ?N 4" cache]
      have dl: "downloads (page ?r)
                  = downloads (page (render_loop L (strftime_Ymd today) (min ?N 4)
                                       split_dfs cache [] 0 names))"
        unfolding s3
        by (simp add: downloads_append downloads_Cons downloads_Nil downloads_process)
      show "raised ?r = None
                  \<and> (\<exists>els. page ?r = ?head els
                         \<and> length els = ?N
                         \<and> (\<forall>i<?N. ?T \<le> i \<longrightarrow>
                               els ! i = Write_no_leads (i mod min ?N 4) (names ! i))
                         \<and> (\<forall>i<?T. download_of (els ! i) \<noteq> None))
                  \<and> length (downloads (page ?r)) = ?T"
        unfolding dl using loop unfolding s3 by simp
    qed
    show "\<exists>split_dfs.
                split_leads perm ?combined ?N = Inr split_dfs
              \<and> (\<forall>i<?N. ?T \<le> i \<longrightarrow> len_df (split_dfs ! i) = 0)
              \<and> (\<forall>i<?T. len_df (split_dfs ! i) = 1)
              \<and> (distinct (take ?T names) \<longrightarrow>
                    raised ?r = None
                  \<and> (\<exists>els. page ?r = ?head els
                         \<and> length els = ?N
                         \<and> (\<forall>i<?N. ?T \<le> i \<longrightarrow>
                               els ! i = Write_no_leads (i mod min ?N 4) (names ! i))
                         \<and> (\<forall>i<?T. download_of (els ! i) \<noteq> None))
                  \<and> length (downloads (page ?r)) = ?T)"
      using sl a b c by blast
  qed
  show ?thesis unfolding Let_def using zero pos by (rule conjI)
qed

theorem C3_empty_shares_get_a_notice_witness:
  "2 \<le> length [''A'', ''B'', ''C'', ''D'', ''E'']
   \<and> [file_B] \<noteq> []
   \<and> len_df (fst (process_uploaded_files demo_lib [file_B]))
        < length [''A'', ''B'', ''C'', ''D'', ''E'']
   \<and> mset [2, 0, 1] = mset [0..<len_df (fst (process_uploaded_files demo_lib [file_B]))]
   \<and> raised (section3 demo_lib [2, 0, 1] \<lparr>year = 2026, month = 11, day = 4\<rparr> Map.empty
                [''A'', ''B'', ''C'', ''D'', ''E''] [file_B] True False) = None
   \<and> length (downloads (page (section3 demo_lib [2, 0, 1] \<lparr>year = 2026, month = 11, day = 4\<rparr>
                Map.empty [''A'', ''B'', ''C'', ''D'', ''E''] [file_B] True False)))
       = len_df (fst (process_uploaded_files demo_lib [file_B]))"
proof -
  let ?names = "[''A'', ''B'', ''C'', ''D'', ''E'']"
  have h1: "2 \<le> length ?names" by simp
  have h2: "[file_B] \<noteq> []" by simp
  have h3: "len_df (fst (process_uploaded_files demo_lib [file_B])) < length ?names"
    by code_simp
  have h4: "mset [2, 0, 1] = mset [0..<len_df (fst (process_uploaded_files demo_lib [file_B]))]"
    by code_simp
  have h5: "len_df (fst (process_uploaded_files demo_lib [file_B])) \<noteq> 0"
    by code_simp
  have h6: "distinct (take (len_df (fst (process_uploaded_files demo_lib [file_B]))) ?names)"
    by code_simp
  note inst = C3_empty_shares_get_a_notice [OF h1 h2 h3 h4,
      where today = "\<lparr>year = 2026, month = 11, day = 4\<rparr>" and cache = Map.empty
        and clicked = False, unfolded Let_def]
  show ?thesis using inst h1 h2 h3 h4 h5 h6 by blast
qed

text \<open>
  The claim as stated gives every size-0 recipient an empty tabular blob among the (name,
  bytes) pairs, for every \<open>T < N\<close>. Three records for the five recipients \<open>A\<close> to \<open>E\<close>: the
  page ends with two text notices for \<open>D\<close> and \<open>E\<close>, and only \<open>A\<close>, \<open>B\<close> and \<open>C\<close> have a
  download button with bytes and a file name. No record (a file with a header only) for
  the two recipients \<open>A\<close> and \<open>B\<close>: the page ends with the warning that splitting could not
  proceed, and neither recipient is represented.
\<close>

theorem C3_empty_share_has_no_blob_counterexample:
  "page (app demo_lib [2, 0, 1] \<lparr>year = 2026, month = 11, day = 4\<rparr> Map.empty
      \<lparr>names_input = ''A'' @ [CHR 0x0A] @ ''B'' @ [CHR 0x0A] @ ''C'' @ [CHR 0x0A] @ ''D''
                        @ [CHR 0x0A] @ ''E'',
       uploaded_files = [file_B], process_clicked = False\<rparr>)
     = [Write_names_entered [''A'', ''B'', ''C'', ''D'', ''E''],
        Success_files_selected 1 [''B.csv''],
        Info_processing,
        Success_combined 3 1,
        Warning_fewer_leads 3 5,
        Write_splitting 5 [''A'', ''B'', ''C'', ''D'', ''E''],
        Subheader_download,
        Download 0 \<lparr>label = ''Download for A (1 leads)'',
                    data = ''email'' @ [CHR 0x0A] @ ''b3'' @ [CHR 0x0A],
                    file_name = ''leads_2026-11-04_A.csv'', mime = ''text/csv'',
                    key = ''download_A''\<rparr>,
        Download 1 \<lparr>label = ''Download for B (1 leads)'',
                    data = ''email'' @ [CHR 0x0A] @ ''b1'' @ [CHR 0x0A],
                    file_name = ''leads_2026-11-04_B.csv'', mime = ''text/csv'',
                    key = ''download_B''\<rparr>,
        Download 2 \<lparr>label = ''Download for C (1 leads)'',
                    data = ''email'' @ [CHR 0x0A] @ ''b2'' @ [CHR 0x0A],
                    file_name = ''leads_2026-11-04_C.csv'', mime = ''text/csv'',
                    key = ''download_C''\<rparr>,
        Write_no_leads 3 ''D'',
        Write_no_leads 0 ''E'']
   \<and> download_keys (page (app demo_lib [2, 0, 1] \<lparr>year = 2026, month = 11, day = 4\<rparr>
        Map.empty
        \<lparr>names_input = ''A'' @ [CHR 0x0A] @ ''B'' @ [CHR 0x0A] @ ''C'' @ [CHR 0x0A] @ ''D''
                          @ [CHR 0x0A] @ ''E'',
         uploaded_files = [file_B], process_clicked = False\<rparr>))
     = [''download_A'', ''download_B'', ''download_C'']
   \<and> page (app demo_lib [] \<lparr>year = 2026, month = 11, day = 4\<rparr> Map.empty
        \<lparr>names_input = ''A'' @ [CHR 0x0A] @ ''B'',
         uploaded_files = [file_D], process_clicked = False\<rparr>)
     = [Write_names_entered [''A'', ''B''],
        Success_files_selected 1 [''D.csv''],
        Info_processing,
        Warning_file_empty ''D.csv'',
        Error_no_valid_lead_data,
        Warning_could_not_proceed]"
  by code_simp

text \<open>
  A repeated name among the recipients that get a button ends the run at the second
  button of that name: the button's key is in use. With the names \<open>Ann\<close>, \<open>Ann\<close>, \<open>Bob\<close>
  and two records the page stops after the first button, and \<open>Bob\<close> is not reached.
\<close>

lemma repeated_name_ends_the_run:
  "page (app demo_lib [1, 0] \<lparr>year = 2026, month = 11, day = 4\<rparr> Map.empty
      \<lparr>names_input = ''Ann'' @ [CHR 0x0A] @ ''Ann'' @ [CHR 0x0A] @ ''Bob'',
       uploaded_files = [file_A], process_clicked = False\<rparr>)
     = [Write_names_entered [''Ann'', ''Ann'', ''Bob''],
        Success_files_selected 1 [''A.csv''],
        Info_processing,
        Success_combined 2 1,
        Warning_fewer_leads 2 3,
        Write_splitting 3 [''Ann'', ''Ann'', ''Bob''],
        Subheader_download,
        Download 0 \<lparr>label = ''Download for Ann (1 leads)'',
                    data = ''email'' @ [CHR 0x0A] @ ''a2'' @ [CHR 0x0A],
                    file_name = ''leads_2026-11-04_Ann.csv'', mime = ''text/csv'',
                    key = ''download_Ann''\<rparr>]
   \<and> raised (app demo_lib [1, 0] \<lparr>year = 2026, month = 11, day = 4\<rparr> Map.empty
      \<lparr>names_input = ''Ann'' @ [CHR 0x0A] @ ''Ann'' @ [CHR 0x0A] @ ''Bob'',
       uploaded_files = [file_A], process_clicked = False\<rparr>)
     = Some (DuplicateWidgetID ''download_Ann'')"
  by code_simp

section \<open>The file name of a download (line 141)\<close>

lemma length_zfill: "length (zfill w s) = max w (length s)"
  by (simp add: zfill_def)

lemma length_str_nat: "0 < k \<Longrightarrow> n < 10 ^ k \<Longrightarrow> length (str_nat n) \<le> k"
proof (induction k arbitrary: n)
  case 0
  then show ?case by simp
next
  case (Suc k)
  show ?case
  proof (cases "n < 10")
    case True
    then show ?thesis by (subst str_nat.simps) simp
  next
    case False
    then have k: "0 < k" using Suc.prems(2) by (cases k) simp_all
    have "n div 10 < 10 ^ k" using Suc.prems(2) by (simp add: less_mult_imp_div_less mult.commute)
    then have "length (str_nat (n div 10)) \<le> k" using Suc.IH k by simp
    then show ?thesis using False by (subst str_nat.simps) simp
  qed
qed

lemma length_str_nat_pos: "0 < length (str_nat n)"
  by (subst str_nat.simps) simp

lemma strftime_Ymd_shape:
  assumes "year d < 10000" and "month d < 100" and "day d < 100"
  shows "length (strftime_Ymd d) = 10 \<and> strftime_Ymd d ! 4 = CHR ''-''
         \<and> strftime_Ymd d ! 7 = CHR ''-''"
proof -
  have y: "length (zfill 4 (str_nat (year d))) = 4"
    using length_str_nat [of 4 "year d"] assms(1) by (simp add: length_zfill)
  have m: "length (zfill 2 (str_nat (month d))) = 2"
    using length_str_nat [of 2 "month d"] assms(2) by (simp add: length_zfill)
  have dd: "length (zfill 2 (str_nat (day d))) = 2"
    using length_str_nat [of 2 "day d"] assms(3) by (simp add: length_zfill)
  show ?thesis
    unfolding strftime_Ymd_def using y m dd by (simp add: nth_append)
qed

lemma replace_nth:
  "length (replace s old new) = length s
   \<and> (\<forall>j<length s. replace s old new ! j = (if s ! j = old then new else s ! j))"
  by (simp add: replace_def)

text \<open>
  Claim C8, as amended. For every non-empty share assigned to the recipient named \<open>s\<close> on
  the date \<open>d\<close>, the file name synthesised for the download button is exactly \<open>leads_\<close>,
  the date as \<open>%Y-%m-%d\<close>, \<open>_\<close>, the sanitised name and \<open>.csv\<close>, where the sanitised name
  is \<open>s\<close> with every space character (U+0020) replaced by an underscore and every other
  character, other whitespace and path-unsafe characters included, unchanged in its
  position. The button shown for the recipient carries that file name, and it is shown
  whenever the names up to this recipient are pairwise distinct. For a date of the
  calendar the date part has ten characters with a hyphen after the year and after the
  month.
\<close>

theorem C8_file_name_replaces_spaces_only:
  assumes "i < length names" and "i < length split_dfs" and "\<not> empty_df (split_dfs ! i)"
  shows "file_name (fst (button_for L (strftime_Ymd d) c (split_dfs ! i) (names ! i)))
           = ''leads_'' @ strftime_Ymd d @ ''_'' @ replace (names ! i) CHR '' '' CHR ''_''
               @ ''.csv''
       \<and> (i < length (page (render_loop L (strftime_Ymd d) ncols split_dfs cache [] 0 names))
            \<longrightarrow> (\<exists>button.
                   page (render_loop L (strftime_Ymd d) ncols split_dfs cache [] 0 names) ! i
                     = Download (i mod ncols) button
                 \<and> file_name button
                     = ''leads_'' @ strftime_Ymd d @ ''_''
                         @ replace (names ! i) CHR '' '' CHR ''_'' @ ''.csv''))
       \<and> (distinct (take (Suc i) names)
            \<longrightarrow> i < length (page (render_loop L (strftime_Ymd d) ncols split_dfs cache [] 0
                                   names)))
       \<and> length (replace (names ! i) CHR '' '' CHR ''_'') = length (names ! i)
       \<and> (\<forall>j<length (names ! i).
             replace (names ! i) CHR '' '' CHR ''_'' ! j
               = (if names ! i ! j = CHR '' '' then CHR ''_'' else names ! i ! j))
       \<and> (year d < 10000 \<and> month d < 100 \<and> day d < 100
             \<longrightarrow> length (strftime_Ymd d) = 10 \<and> strftime_Ymd d ! 4 = CHR ''-''
                 \<and> strftime_Ymd d ! 7 = CHR ''-'')"
proof -
  let ?els = "page (render_loop L (strftime_Ymd d) ncols split_dfs cache [] 0 names)"
  let ?fn = "''leads_'' @ strftime_Ymd d @ ''_'' @ replace (names ! i) CHR '' '' CHR ''_''
               @ ''.csv''"
  have gb: "gets_button split_dfs (0 + i)"
    using assms(2,3) by (simp add: gets_button_def)
  have 1: "file_name (fst (button_for L (strftime_Ymd d) c (split_dfs ! i) (names ! i))) = ?fn"
    by (rule button_for_fields(1))
  have 2: "i < length ?els
            \<longrightarrow> (\<exists>button. ?els ! i = Download (i mod ncols) button \<and> file_name button = ?fn)"
  proof
    assume "i < length ?els"
    from render_loop_nth [OF this] gb
    have "?els ! i = Download (i mod ncols)
                       (fst (button_for L (strftime_Ymd d)
                          (final_cache (render_loop L (strftime_Ymd d) ncols split_dfs cache []
                                          0 (take i names)))
                          (split_dfs ! i) (names ! i)))"
      by simp
    moreover have "file_name (fst (button_for L (strftime_Ymd d)
                          (final_cache (render_loop L (strftime_Ymd d) ncols split_dfs cache []
                                          0 (take i names)))
                          (split_dfs ! i) (names ! i))) = ?fn"
      by (rule button_for_fields(1))
    ultimately show "\<exists>button. ?els ! i = Download (i mod ncols) button
                       \<and> file_name button = ?fn"
      by blast
  qed
  have 3: "distinct (take (Suc i) names) \<longrightarrow> i < length ?els"
  proof
    assume d: "distinct (take (Suc i) names)"
    have "Suc i \<le> length ?els
          \<and> (Suc i = length names \<longrightarrow>
                raised (render_loop L (strftime_Ymd d) ncols split_dfs cache [] 0 names) = None)"
      by (rule render_loop_reaches) (use assms(1) d in \<open>simp_all add: distinct_button_names\<close>)
    then show "i < length ?els" by simp
  qed
  show ?thesis
    using 1 2 3 replace_nth [of "names ! i" "CHR '' ''" "CHR ''_''"] strftime_Ymd_shape [of d]
    by blast
qed

theorem C8_file_name_replaces_spaces_only_witness:
  "0 < length [''Ann Lee'', ''Bob'']
   \<and> 0 < length [\<lparr>columns = [''email''], rows = [''a2'']\<rparr>,
                  \<lparr>columns = [''email''], rows = [''a1'']\<rparr>]
   \<and> \<not> empty_df ([\<lparr>columns = [''email''], rows = [''a2'']\<rparr>,
                    \<lparr>columns = [''email''], rows = [''a1'']\<rparr>] ! 0)
   \<and> distinct (take (Suc 0) [''Ann Lee'', ''Bob''])
   \<and> (\<exists>button.
          page (render_loop demo_lib (strftime_Ymd \<lparr>year = 2026, month = 11, day = 4\<rparr>) 2
                 [\<lparr>columns = [''email''], rows = [''a2'']\<rparr>,
                  \<lparr>columns = [''email''], rows = [''a1'']\<rparr>] Map.empty [] 0
                 [''Ann Lee'', ''Bob'']) ! 0
            = Download (0 mod 2) button
        \<and> file_name button = ''leads_2026-11-04_Ann_Lee.csv'')"
proof -
  let ?names = "[''Ann Lee'', ''Bob'']"
  let ?dfs = "[\<lparr>columns = [''email''], rows = [''a2'']\<rparr>,
               \<lparr>columns = [''email''], rows = [''a1'']\<rparr>]"
  let ?d = "\<lparr>year = 2026, month = 11, day = 4\<rparr>"
  have h1: "0 < length ?names" by simp
  have h2: "0 < length ?dfs" by simp
  have h3: "\<not> empty_df (?dfs ! 0)" by (simp add: empty_df_def)
  have h4: "distinct (take (Suc 0) ?names)" by simp
  have fn: "''leads_'' @ strftime_Ymd ?d @ ''_'' @ replace (?names ! 0) CHR '' '' CHR ''_''
              @ ''.csv'' = ''leads_2026-11-04_Ann_Lee.csv''"
    by code_simp
  note inst = C8_file_name_replaces_spaces_only [OF h1 h2 h3, where L = demo_lib and d = ?d
      and ncols = 2 and cache = Map.empty and c = Map.empty, unfolded fn]
  show ?thesis using inst h1 h2 h3 h4 by blast
qed

text \<open>
  The claim as stated replaces whitespace. The name \<open>Ann<TAB>Lee\<close>, as line 65 leaves it
  (a tab inside a name is not stripped), keeps its tab in the file name; with the
  whitespace replaced the file name would be \<open>leads_2026-11-04_Ann_Lee.csv\<close>.
\<close>

theorem C8_tab_is_not_replaced_counterexample:
  "parse_names (''Ann'' @ [CHR 0x09] @ ''Lee'' @ [CHR 0x0A] @ ''Bob'')
     = [''Ann'' @ [CHR 0x09] @ ''Lee'', ''Bob'']
   \<and> download_names (page (app demo_lib [1, 0] \<lparr>year = 2026, month = 11, day = 4\<rparr>
        Map.empty
        \<lparr>names_input = ''Ann'' @ [CHR 0x09] @ ''Lee'' @ [CHR 0x0A] @ ''Bob'',
         uploaded_files = [file_A], process_clicked = False\<rparr>))
     = [''leads_2026-11-04_Ann'' @ [CHR 0x09] @ ''Lee.csv'', ''leads_2026-11-04_Bob.csv'']
   \<and> ''leads_2026-11-04_'' @ sanitize_whitespace (''Ann'' @ [CHR 0x09] @ ''Lee'') @ ''.csv''
     = ''leads_2026-11-04_Ann_Lee.csv''
   \<and> ''leads_2026-11-04_Ann'' @ [CHR 0x09] @ ''Lee.csv''
     \<noteq> ''leads_2026-11-04_'' @ sanitize_whitespace (''Ann'' @ [CHR 0x09] @ ''Lee'') @ ''.csv''"
  by code_simp

end
